theory Spec2Isabelle
  imports Main "HOL-Library.Word"
begin

unbundle bit_operations_syntax

section \<open>JavaScript integer operators\<close>

text \<open>
  The numbers of \<^verbatim>\<open>encoding.ts\<close> are integers, modelled as \<open>int\<close>. The bitwise operators
  of JavaScript first convert their operands to 32-bit two's complement (ToInt32), work on
  that, and give the signed reading of the 32-bit result back.
\<close>

definition ToInt32 :: "int \<Rightarrow> 32 word" where
  "ToInt32 x = word_of_int x"

text \<open>\<^verbatim>\<open>x >> n\<close>: sign-propagating right shift, the shift count taken modulo 32.\<close>

definition js_sar :: "int \<Rightarrow> nat \<Rightarrow> int" where
  "js_sar x n = sint (signed_drop_bit (n mod 32) (ToInt32 x))"

text \<open>\<^verbatim>\<open>x << n\<close>.\<close>

definition js_shl :: "int \<Rightarrow> nat \<Rightarrow> int" where
  "js_shl x n = sint (push_bit (n mod 32) (ToInt32 x))"

text \<open>\<^verbatim>\<open>x & y\<close> and \<^verbatim>\<open>x | y\<close>.\<close>

definition js_and :: "int \<Rightarrow> int \<Rightarrow> int" where
  "js_and x y = sint (ToInt32 x AND ToInt32 y)"

definition js_or :: "int \<Rightarrow> int \<Rightarrow> int" where
  "js_or x y = sint (ToInt32 x OR ToInt32 y)"

section \<open>BitVector\<close>

text \<open>
  \<^verbatim>\<open>class BitVector { private bits: number[] = []; private readPos = 0; ... }\<close>
  The object is mutable; every method of the model takes the vector and returns the
  updated one.
\<close>

record BitVector =
  bits :: "int list"
  readPos :: nat

definition new_BitVector :: BitVector where
  "new_BitVector = \<lparr>bits = [], readPos = 0\<rparr>"

text \<open>
  \<^verbatim>\<open>write(value, bitLength)\<close>: \<^verbatim>\<open>for (let i = bitLength - 1; i >= 0; i--)
  this.bits.push((value >> i) & 1)\<close>. The first argument of \<open>write_loop\<close> after the value
  is \<open>i + 1\<close>, the number of iterations still to run. The method is called \<open>write_bv\<close>
  here, \<open>write\<close> being a keyword of Isabelle.
\<close>

fun write_loop :: "int \<Rightarrow> nat \<Rightarrow> int list \<Rightarrow> int list" where
  "write_loop v 0 bs = bs"
| "write_loop v (Suc i) bs = write_loop v i (bs @ [js_and (js_sar v i) 1])"

definition write_bv :: "BitVector \<Rightarrow> int \<Rightarrow> nat \<Rightarrow> BitVector" where
  "write_bv bv v bitLength = bv\<lparr>bits := write_loop v bitLength (bits bv)\<rparr>"

text \<open>\<^verbatim>\<open>this.bits[k] ?? 0\<close>: an index past the end of a JavaScript array gives
  \<^verbatim>\<open>undefined\<close>, which \<^verbatim>\<open>??\<close> replaces by 0.\<close>

definition bit_at :: "int list \<Rightarrow> nat \<Rightarrow> int" where
  "bit_at bs k = (if k < length bs then bs ! k else 0)"

text \<open>
  \<^verbatim>\<open>read(bitLength)\<close>: \<^verbatim>\<open>value = (value << 1) | (this.bits[this.readPos++] ?? 0)\<close>,
  \<open>bitLength\<close> times. The cursor moves on even past the end of the bits.
\<close>

fun read_loop :: "nat \<Rightarrow> int \<Rightarrow> BitVector \<Rightarrow> int \<times> BitVector" where
  "read_loop 0 v bv = (v, bv)"
| "read_loop (Suc k) v bv =
     read_loop k (js_or (js_shl v 1) (bit_at (bits bv) (readPos bv)))
       (bv\<lparr>readPos := readPos bv + 1\<rparr>)"

definition read :: "BitVector \<Rightarrow> nat \<Rightarrow> int \<times> BitVector" where
  "read bv bitLength = read_loop bitLength 0 bv"

text \<open>\<^verbatim>\<open>remaining()\<close>: \<^verbatim>\<open>this.bits.length - this.readPos\<close>, negative once the cursor
  has passed the end.\<close>

definition remaining :: "BitVector \<Rightarrow> int" where
  "remaining bv = int (length (bits bv)) - int (readPos bv)"

text \<open>\<^verbatim>\<open>padToBase64()\<close>: \<^verbatim>\<open>while (this.bits.length % 6 !== 0) this.bits.push(0)\<close>.\<close>

function padToBase64_loop :: "int list \<Rightarrow> int list" where
  "padToBase64_loop bs = (if length bs mod 6 \<noteq> 0 then padToBase64_loop (bs @ [0]) else bs)"
  by pat_completeness auto
termination
proof (relation "measure (\<lambda>bs. (6 - length bs mod 6) mod 6)")
  show "wf (measure (\<lambda>bs :: int list. (6 - length bs mod 6) mod 6))"
    by (rule wf_measure)
next
  fix bs :: "int list"
  assume a: "length bs mod 6 \<noteq> 0"
  define r where "r = length bs mod 6"
  have r: "r < 6" "r \<noteq> 0"
    using a by (simp_all add: r_def)
  have s: "Suc (length bs) mod 6 = (if Suc r = 6 then 0 else Suc r)"
    unfolding r_def by (rule mod_Suc)
  have "(6 - (if Suc r = 6 then 0 else Suc r)) mod 6 < (6 - r) mod 6"
    using r by (cases "Suc r = 6") auto
  then have "(6 - Suc (length bs) mod 6) mod 6 < (6 - length bs mod 6) mod 6"
    using s r_def by simp
  then show "(bs @ [0], bs) \<in> measure (\<lambda>bs. (6 - length bs mod 6) mod 6)"
    by (simp only: in_measure length_append_singleton)
qed

declare padToBase64_loop.simps [simp del]

definition padToBase64 :: "BitVector \<Rightarrow> BitVector" where
  "padToBase64 bv = bv\<lparr>bits := padToBase64_loop (bits bv)\<rparr>"

text \<open>The alphabet, and \<^verbatim>\<open>BASE64_CHARS[value]\<close>: indexing a string out of range gives
  \<^verbatim>\<open>undefined\<close>, which \<^verbatim>\<open>+=\<close> appends as the text "undefined".\<close>

definition BASE64_CHARS :: string where
  "BASE64_CHARS = ''ABCDEFGHIJKLMNOPQRSTUVWXYZabcdefghijklmnopqrstuvwxyz0123456789-_''"

definition char_at :: "string \<Rightarrow> int \<Rightarrow> string" where
  "char_at s v = (if 0 \<le> v \<and> v < int (length s) then [s ! nat v] else ''undefined'')"

text \<open>
  \<^verbatim>\<open>toBase64()\<close>: the inner loop \<^verbatim>\<open>for (let j = 0; j < 6; j++)
  value = (value << 1) | (this.bits[i + j] ?? 0)\<close> and the outer loop
  \<^verbatim>\<open>for (let i = 0; i < this.bits.length; i += 6)\<close>. The padding stays in the vector;
  \<open>toBase64\<close> returns the text only, as no caller uses the vector afterwards.
\<close>

function sextet_loop :: "int list \<Rightarrow> nat \<Rightarrow> nat \<Rightarrow> int \<Rightarrow> int" where
  "sextet_loop bs i j v =
     (if j < 6 then sextet_loop bs i (j + 1) (js_or (js_shl v 1) (bit_at bs (i + j))) else v)"
  by pat_completeness auto
termination
  by (relation "measure (\<lambda>(bs, i, j, v). 6 - j)") auto

declare sextet_loop.simps [simp del]

function toBase64_loop :: "int list \<Rightarrow> nat \<Rightarrow> string \<Rightarrow> string" where
  "toBase64_loop bs i result =
     (if i < length bs
      then toBase64_loop bs (i + 6) (result @ char_at BASE64_CHARS (sextet_loop bs i 0 0))
      else result)"
  by pat_completeness auto
termination
  by (relation "measure (\<lambda>(bs, i, result). length bs - i)") auto

declare toBase64_loop.simps [simp del]

definition toBase64 :: "BitVector \<Rightarrow> string" where
  "toBase64 bv = toBase64_loop (bits (padToBase64 bv)) 0 []"

text \<open>\<^verbatim>\<open>BASE64_CHARS.indexOf(char)\<close>: the first position of the character, or -1.\<close>

fun indexOf :: "string \<Rightarrow> char \<Rightarrow> int" where
  "indexOf [] c = - 1"
| "indexOf (x # xs) c =
     (if x = c then 0 else (let r = indexOf xs c in if r = - 1 then - 1 else r + 1))"

text \<open>
  \<^verbatim>\<open>fromBase64(str)\<close>: characters outside the alphabet are skipped; for the others the
  loop \<^verbatim>\<open>for (let i = 5; i >= 0; i--) bv.bits.push((value >> i) & 1)\<close> is the loop of
  \<open>write_bv\<close> at \<open>bitLength = 6\<close>.
\<close>

fun fromBase64_loop :: "string \<Rightarrow> BitVector \<Rightarrow> BitVector" where
  "fromBase64_loop [] bv = bv"
| "fromBase64_loop (c # cs) bv =
     (let v = indexOf BASE64_CHARS c
      in if v = - 1 then fromBase64_loop cs bv
         else fromBase64_loop cs (bv\<lparr>bits := write_loop v 6 (bits bv)\<rparr>))"

definition fromBase64 :: "string \<Rightarrow> BitVector" where
  "fromBase64 str = fromBase64_loop str new_BitVector"

section \<open>Records\<close>

text \<open>
  \<^verbatim>\<open>CharaData\<close>, \<^verbatim>\<open>SkillData\<close> and \<^verbatim>\<open>SuccessionCharaData\<close> are imported from
  \<^verbatim>\<open>./types\<close>; the records below have the fields that \<^verbatim>\<open>encoding.ts\<close> reads and
  builds. A parent shares the field names \<open>card_id\<close>, \<open>talent_level\<close> and
  \<open>factor_id_array\<close> with a character: for a parent they are written with the record's
  name in front. The element type of \<open>support_card_list\<close> is not visible in
  \<^verbatim>\<open>encoding.ts\<close>, which only ever builds the empty list; it is \<open>unit\<close> here.
\<close>

record SuccessionCharaData =
  card_id :: int
  talent_level :: int
  factor_id_array :: "int list"
  position_id :: int

record SkillData =
  skill_id :: int
  level :: int

record CharaData =
  card_id :: int
  talent_level :: int
  create_time :: string
  rarity :: int
  chara_seed :: int
  speed :: int
  stamina :: int
  power :: int
  guts :: int
  wiz :: int
  proper_distance_short :: int
  proper_distance_mile :: int
  proper_distance_middle :: int
  proper_distance_long :: int
  proper_ground_turf :: int
  proper_ground_dirt :: int
  proper_running_style_nige :: int
  proper_running_style_senko :: int
  proper_running_style_sashi :: int
  proper_running_style_oikomi :: int
  factor_id_array :: "int list"
  skill_array :: "SkillData list"
  succession_chara_array :: "SuccessionCharaData list"
  support_card_list :: "unit list"

section \<open>encodeChara\<close>

text \<open>\<^verbatim>\<open>for (const factorId of factors) bv.write(factorId, 24)\<close>, the loop of the
  character's factors and of each parent's.\<close>

fun write_factors :: "BitVector \<Rightarrow> int list \<Rightarrow> BitVector" where
  "write_factors bv [] = bv"
| "write_factors bv (factorId # factors) = write_factors (write_bv bv factorId 24) factors"

text \<open>\<^verbatim>\<open>for (const skill of skills) { bv.write(skill.skill_id, 16);
  bv.write(skill.level > 1 ? 1 : 0, 1) }\<close>\<close>

fun write_skills :: "BitVector \<Rightarrow> SkillData list \<Rightarrow> BitVector" where
  "write_skills bv [] = bv"
| "write_skills bv (skill # skills) =
     (let bv = write_bv bv (skill_id skill) 16;
          bv = write_bv bv (if level skill > 1 then 1 else 0) 1
      in write_skills bv skills)"

text \<open>\<^verbatim>\<open>for (const parent of parents) { ... }\<close>\<close>

fun write_parents :: "BitVector \<Rightarrow> SuccessionCharaData list \<Rightarrow> BitVector" where
  "write_parents bv [] = bv"
| "write_parents bv (parent # parents) =
     (let bv = write_bv bv (SuccessionCharaData.card_id parent) 20;
          bv = write_bv bv (SuccessionCharaData.talent_level parent - 1) 3;
          parentFactors = take 15 (SuccessionCharaData.factor_id_array parent);
          bv = write_bv bv (int (length parentFactors)) 4;
          bv = write_factors bv parentFactors
      in write_parents bv parents)"

definition encodeChara :: "BitVector \<Rightarrow> CharaData \<Rightarrow> BitVector" where
  "encodeChara bv chara =
     (let bv = write_bv bv (card_id chara) 20;
          bv = write_bv bv (talent_level chara - 1) 3;
          bv = write_bv bv (min (speed chara) 2047) 11;
          bv = write_bv bv (min (stamina chara) 2047) 11;
          bv = write_bv bv (min (power chara) 2047) 11;
          bv = write_bv bv (min (guts chara) 2047) 11;
          bv = write_bv bv (min (wiz chara) 2047) 11;
          bv = write_bv bv (proper_distance_short chara - 1) 3;
          bv = write_bv bv (proper_distance_mile chara - 1) 3;
          bv = write_bv bv (proper_distance_middle chara - 1) 3;
          bv = write_bv bv (proper_distance_long chara - 1) 3;
          bv = write_bv bv (proper_ground_turf chara - 1) 3;
          bv = write_bv bv (proper_ground_dirt chara - 1) 3;
          bv = write_bv bv (proper_running_style_nige chara - 1) 3;
          bv = write_bv bv (proper_running_style_senko chara - 1) 3;
          bv = write_bv bv (proper_running_style_sashi chara - 1) 3;
          bv = write_bv bv (proper_running_style_oikomi chara - 1) 3;
          factors = take 15 (factor_id_array chara);
          bv = write_bv bv (int (length factors)) 4;
          bv = write_factors bv factors;
          skills = take 63 (skill_array chara);
          bv = write_bv bv (int (length skills)) 6;
          bv = write_skills bv skills;
          parents = take 3 (succession_chara_array chara);
          bv = write_bv bv (int (length parents)) 2
      in write_parents bv parents)"

section \<open>decodeChara\<close>

text \<open>\<^verbatim>\<open>for (let i = 0; i < factorCount; i++) factor_id_array.push(bv.read(24))\<close>, again
  the loop of the character's factors and of each parent's.\<close>

function read_factors :: "nat \<Rightarrow> int \<Rightarrow> BitVector \<Rightarrow> int list \<Rightarrow> int list \<times> BitVector" where
  "read_factors i factorCount bv arr =
     (if int i < factorCount
      then (let (factorId, bv) = read bv 24
            in read_factors (i + 1) factorCount bv (arr @ [factorId]))
      else (arr, bv))"
  by pat_completeness auto
termination
  by (relation "measure (\<lambda>(i, factorCount, bv, arr). nat (factorCount - int i))") auto

declare read_factors.simps [simp del]

text \<open>\<^verbatim>\<open>for (let i = 0; i < skillCount; i++) { const skill_id = bv.read(16);
  const levelFlag = bv.read(1); skill_array.push({ skill_id, level: levelFlag ? 2 : 1 }) }\<close>\<close>

function read_skills :: "nat \<Rightarrow> int \<Rightarrow> BitVector \<Rightarrow> SkillData list \<Rightarrow> SkillData list \<times> BitVector" where
  "read_skills i skillCount bv arr =
     (if int i < skillCount
      then (let (skill_id', bv) = read bv 16;
                (levelFlag, bv) = read bv 1
            in read_skills (i + 1) skillCount bv
                 (arr @ [\<lparr>skill_id = skill_id', level = (if levelFlag \<noteq> 0 then 2 else 1)\<rparr>]))
      else (arr, bv))"
  by pat_completeness auto
termination
  by (relation "measure (\<lambda>(i, skillCount, bv, arr). nat (skillCount - int i))") auto

declare read_skills.simps [simp del]

text \<open>\<^verbatim>\<open>for (let i = 0; i < parentCount; i++) { ... position_id: i + 1 ... }\<close>\<close>

function read_parents ::
  "nat \<Rightarrow> int \<Rightarrow> BitVector \<Rightarrow> SuccessionCharaData list \<Rightarrow> SuccessionCharaData list \<times> BitVector" where
  "read_parents i parentCount bv arr =
     (if int i < parentCount
      then (let (parent_card_id, bv) = read bv 20;
                (r, bv) = read bv 3;
                parent_talent_level = r + 1;
                (parentFactorCount, bv) = read bv 4;
                (parent_factor_id_array, bv) = read_factors 0 parentFactorCount bv []
            in read_parents (i + 1) parentCount bv
                 (arr @ [\<lparr>SuccessionCharaData.card_id = parent_card_id,
                          talent_level = parent_talent_level,
                          factor_id_array = parent_factor_id_array,
                          position_id = int i + 1\<rparr>]))
      else (arr, bv))"
  by pat_completeness auto
termination
  by (relation "measure (\<lambda>(i, parentCount, bv, arr). nat (parentCount - int i))") auto

declare read_parents.simps [simp del]

text \<open>
  \<open>decodeChara\<close> fills \<open>create_time\<close> from the clock and \<open>chara_seed\<close> from
  \<^verbatim>\<open>Math.random()\<close>. The two values it gets are the argument \<open>env\<close> of the model.
\<close>

definition decodeChara :: "string \<times> int \<Rightarrow> BitVector \<Rightarrow> CharaData option \<times> BitVector" where
  "decodeChara env bv =
     (if remaining bv < 108 then (None, bv)
      else
       (let (card_id', bv) = read bv 20;
            (r, bv) = read bv 3; talent_level' = r + 1;
            (speed', bv) = read bv 11;
            (stamina', bv) = read bv 11;
            (power', bv) = read bv 11;
            (guts', bv) = read bv 11;
            (wiz', bv) = read bv 11;
            (r, bv) = read bv 3; proper_distance_short' = r + 1;
            (r, bv) = read bv 3; proper_distance_mile' = r + 1;
            (r, bv) = read bv 3; proper_distance_middle' = r + 1;
            (r, bv) = read bv 3; proper_distance_long' = r + 1;
            (r, bv) = read bv 3; proper_ground_turf' = r + 1;
            (r, bv) = read bv 3; proper_ground_dirt' = r + 1;
            (r, bv) = read bv 3; proper_running_style_nige' = r + 1;
            (r, bv) = read bv 3; proper_running_style_senko' = r + 1;
            (r, bv) = read bv 3; proper_running_style_sashi' = r + 1;
            (r, bv) = read bv 3; proper_running_style_oikomi' = r + 1;
            (factorCount, bv) = read bv 4;
            (factor_id_array', bv) = read_factors 0 factorCount bv [];
            (skillCount, bv) = read bv 6;
            (skill_array', bv) = read_skills 0 skillCount bv [];
            (parentCount, bv) = read bv 2;
            (succession_chara_array', bv) = read_parents 0 parentCount bv []
        in (Some \<lparr>card_id = card_id',
                  talent_level = talent_level',
                  create_time = fst env,
                  rarity = 3,
                  chara_seed = snd env,
                  speed = speed',
                  stamina = stamina',
                  power = power',
                  guts = guts',
                  wiz = wiz',
                  proper_distance_short = proper_distance_short',
                  proper_distance_mile = proper_distance_mile',
                  proper_distance_middle = proper_distance_middle',
                  proper_distance_long = proper_distance_long',
                  proper_ground_turf = proper_ground_turf',
                  proper_ground_dirt = proper_ground_dirt',
                  proper_running_style_nige = proper_running_style_nige',
                  proper_running_style_senko = proper_running_style_senko',
                  proper_running_style_sashi = proper_running_style_sashi',
                  proper_running_style_oikomi = proper_running_style_oikomi',
                  factor_id_array = factor_id_array',
                  skill_array = skill_array',
                  succession_chara_array = succession_chara_array',
                  support_card_list = []\<rparr>, bv)))"

section \<open>encodeCharas and decodeCharas\<close>

definition ENCODING_VERSION :: int where
  "ENCODING_VERSION = 2"

text \<open>\<^verbatim>\<open>for (const chara of charas.slice(0, 255)) encodeChara(bv, chara)\<close>\<close>

fun encode_loop :: "BitVector \<Rightarrow> CharaData list \<Rightarrow> BitVector" where
  "encode_loop bv [] = bv"
| "encode_loop bv (chara # charas) = encode_loop (encodeChara bv chara) charas"

definition encodeCharas :: "CharaData list \<Rightarrow> string" where
  "encodeCharas charas =
     (let bv = new_BitVector;
          bv = write_bv bv ENCODING_VERSION 8;
          bv = write_bv bv (min (int (length charas)) 255) 8;
          bv = encode_loop bv (take 255 charas)
      in toBase64 bv)"

text \<open>
  The loop of \<open>decodeCharas\<close>:
  \<^verbatim>\<open>for (let i = 0; i < count; i++) { const chara = decodeChara(bv);
  if (chara) charas.push(chara); else console.log(...) }\<close>.
  There is no \<^verbatim>\<open>break\<close>: after a failed entry the loop goes on to the next index.
  \<open>env i\<close> is what the clock and the random generator give in iteration \<open>i\<close>.
\<close>

function decode_loop ::
  "(nat \<Rightarrow> string \<times> int) \<Rightarrow> nat \<Rightarrow> int \<Rightarrow> BitVector \<Rightarrow> CharaData list \<Rightarrow> CharaData list \<times> BitVector" where
  "decode_loop env i count bv charas =
     (if int i < count
      then (case decodeChara (env i) bv of
              (Some chara, bv) \<Rightarrow> decode_loop env (i + 1) count bv (charas @ [chara])
            | (None, bv) \<Rightarrow> decode_loop env (i + 1) count bv charas)
      else (charas, bv))"
  by pat_completeness auto
termination
  by (relation "measure (\<lambda>(env, i, count, bv, charas). nat (count - int i))") auto

declare decode_loop.simps [simp del]

text \<open>
  \<open>decodeCharas\<close>. The version that is read only decides whether a warning is logged;
  the console is not part of the model. No statement of the \<^verbatim>\<open>try\<close> block raises (a read
  past the end of the bits gives 0), so the \<^verbatim>\<open>catch\<close> branch, which returns the empty
  list, is never entered and the model has no error value.
\<close>

definition decodeCharas :: "(nat \<Rightarrow> string \<times> int) \<Rightarrow> string \<Rightarrow> CharaData list" where
  "decodeCharas env encoded =
     (let bv = fromBase64 encoded;
          (version, bv) = read bv 8;
          (count, bv) = read bv 8;
          (charas, bv) = decode_loop env 0 count bv []
      in charas)"

section \<open>Notions used in the proofs\<close>

text \<open>
  None of the following is part of \<^verbatim>\<open>encoding.ts\<close>. These functions describe what the
  program writes and reads, and the lemmas of the next section relate them to the program.
\<close>

text \<open>The \<open>n\<close> low bits of \<open>v\<close>, most significant first.\<close>

definition wbits :: "int \<Rightarrow> nat \<Rightarrow> int list" where
  "wbits v n = map (\<lambda>i. of_bool (bit v i)) (rev [0..<n])"

text \<open>Every element is 0 or 1.\<close>

definition is_bits :: "int list \<Rightarrow> bool" where
  "is_bits bs = (\<forall>b \<in> set bs. b = 0 \<or> b = 1)"

text \<open>The number that a list of bits denotes, most significant first, continuing from \<open>v\<close>.\<close>

definition horner :: "int \<Rightarrow> int list \<Rightarrow> int" where
  "horner v bs = foldl (\<lambda>v b. 2 * v + b) v bs"

text \<open>The number denoted by the \<open>n\<close> bits from position \<open>p\<close> on, absent bits being 0.\<close>

definition peek :: "int list \<Rightarrow> nat \<Rightarrow> nat \<Rightarrow> int" where
  "peek bs p n = horner 0 (map (bit_at bs) [p..<p + n])"

text \<open>A vector whose cursor stands between the bits \<open>pre\<close> and the bits \<open>suf\<close>.\<close>

definition mk :: "int list \<Rightarrow> int list \<Rightarrow> BitVector" where
  "mk pre suf = \<lparr>bits = pre @ suf, readPos = length pre\<rparr>"

text \<open>The bits that \<open>encodeChara\<close> appends, by part.\<close>

definition factors_bits :: "int list \<Rightarrow> int list" where
  "factors_bits fs = concat (map (\<lambda>f. wbits f 24) fs)"

definition skill_bits :: "SkillData \<Rightarrow> int list" where
  "skill_bits s = wbits (skill_id s) 16 @ wbits (if level s > 1 then 1 else 0) 1"

definition parent_bits :: "SuccessionCharaData \<Rightarrow> int list" where
  "parent_bits p =
     wbits (SuccessionCharaData.card_id p) 20 @
     wbits (SuccessionCharaData.talent_level p - 1) 3 @
     wbits (int (length (take 15 (SuccessionCharaData.factor_id_array p)))) 4 @
     factors_bits (take 15 (SuccessionCharaData.factor_id_array p))"

definition chara_bits :: "CharaData \<Rightarrow> int list" where
  "chara_bits c =
     wbits (card_id c) 20 @
     wbits (talent_level c - 1) 3 @
     wbits (min (speed c) 2047) 11 @
     wbits (min (stamina c) 2047) 11 @
     wbits (min (power c) 2047) 11 @
     wbits (min (guts c) 2047) 11 @
     wbits (min (wiz c) 2047) 11 @
     wbits (proper_distance_short c - 1) 3 @
     wbits (proper_distance_mile c - 1) 3 @
     wbits (proper_distance_middle c - 1) 3 @
     wbits (proper_distance_long c - 1) 3 @
     wbits (proper_ground_turf c - 1) 3 @
     wbits (proper_ground_dirt c - 1) 3 @
     wbits (proper_running_style_nige c - 1) 3 @
     wbits (proper_running_style_senko c - 1) 3 @
     wbits (proper_running_style_sashi c - 1) 3 @
     wbits (proper_running_style_oikomi c - 1) 3 @
     wbits (int (length (take 15 (factor_id_array c)))) 4 @
     factors_bits (take 15 (factor_id_array c)) @
     wbits (int (length (take 63 (skill_array c)))) 6 @
     concat (map skill_bits (take 63 (skill_array c))) @
     wbits (int (length (take 3 (succession_chara_array c)))) 2 @
     concat (map parent_bits (take 3 (succession_chara_array c)))"

text \<open>
  What \<open>decodeChara\<close> gives back for a record that \<open>encodeChara\<close> has written: every
  number reduced to the width of its field, the lists cut to their maximal lengths, the
  skill levels collapsed, the parents numbered from 1 (\<open>decoded_parent k\<close> is the parent at
  index \<open>k\<close>), and the fields that are not transmitted filled in.
\<close>

definition decoded_skill :: "SkillData \<Rightarrow> SkillData" where
  "decoded_skill s = \<lparr>skill_id = take_bit 16 (skill_id s), level = (if level s > 1 then 2 else 1)\<rparr>"

definition decoded_parent :: "nat \<Rightarrow> SuccessionCharaData \<Rightarrow> SuccessionCharaData" where
  "decoded_parent i p =
     \<lparr>SuccessionCharaData.card_id = take_bit 20 (SuccessionCharaData.card_id p),
      talent_level = take_bit 3 (SuccessionCharaData.talent_level p - 1) + 1,
      factor_id_array = map (take_bit 24) (take 15 (SuccessionCharaData.factor_id_array p)),
      position_id = int i + 1\<rparr>"

definition decoded_chara :: "string \<times> int \<Rightarrow> CharaData \<Rightarrow> CharaData" where
  "decoded_chara env c =
     \<lparr>card_id = take_bit 20 (card_id c),
      talent_level = take_bit 3 (talent_level c - 1) + 1,
      create_time = fst env,
      rarity = 3,
      chara_seed = snd env,
      speed = take_bit 11 (min (speed c) 2047),
      stamina = take_bit 11 (min (stamina c) 2047),
      power = take_bit 11 (min (power c) 2047),
      guts = take_bit 11 (min (guts c) 2047),
      wiz = take_bit 11 (min (wiz c) 2047),
      proper_distance_short = take_bit 3 (proper_distance_short c - 1) + 1,
      proper_distance_mile = take_bit 3 (proper_distance_mile c - 1) + 1,
      proper_distance_middle = take_bit 3 (proper_distance_middle c - 1) + 1,
      proper_distance_long = take_bit 3 (proper_distance_long c - 1) + 1,
      proper_ground_turf = take_bit 3 (proper_ground_turf c - 1) + 1,
      proper_ground_dirt = take_bit 3 (proper_ground_dirt c - 1) + 1,
      proper_running_style_nige = take_bit 3 (proper_running_style_nige c - 1) + 1,
      proper_running_style_senko = take_bit 3 (proper_running_style_senko c - 1) + 1,
      proper_running_style_sashi = take_bit 3 (proper_running_style_sashi c - 1) + 1,
      proper_running_style_oikomi = take_bit 3 (proper_running_style_oikomi c - 1) + 1,
      factor_id_array = map (take_bit 24) (take 15 (factor_id_array c)),
      skill_array = map decoded_skill (take 63 (skill_array c)),
      succession_chara_array =
        map (\<lambda>(k, p). decoded_parent k p) (enumerate 0 (take 3 (succession_chara_array c))),
      support_card_list = []\<rparr>"

text \<open>The character that \<open>toBase64\<close> emits for a group of six bits.\<close>

definition sextet_char :: "int list \<Rightarrow> char" where
  "sextet_char g = BASE64_CHARS ! nat (horner 0 g)"

section \<open>Ranges and agreement of records\<close>

text \<open>\<open>v\<close> is an unsigned number of at most \<open>n\<close> bits.\<close>

definition fits :: "nat \<Rightarrow> int \<Rightarrow> bool" where
  "fits n v \<longleftrightarrow> 0 \<le> v \<and> v < 2 ^ n"

text \<open>The five stats and the ten aptitudes of a character, in the order of the wire format.\<close>

definition stat_fields :: "(CharaData \<Rightarrow> int) list" where
  "stat_fields = [speed, stamina, power, guts, wiz]"

definition aptitude_fields :: "(CharaData \<Rightarrow> int) list" where
  "aptitude_fields =
     [proper_distance_short, proper_distance_mile, proper_distance_middle, proper_distance_long,
      proper_ground_turf, proper_ground_dirt,
      proper_running_style_nige, proper_running_style_senko,
      proper_running_style_sashi, proper_running_style_oikomi]"

text \<open>
  The documented ranges: \<open>card_id\<close> fits 20 bits, \<open>talent_level\<close> is 1 to 5, stats are 0 to
  2047, aptitudes 1 to 8, factor ids fit 24 bits with at most 15 in a list, skill ids fit 16
  bits with at most 63 skills, at most 3 parents, each parent in range.
\<close>

definition parent_in_range :: "SuccessionCharaData \<Rightarrow> bool" where
  "parent_in_range p \<longleftrightarrow>
     fits 20 (SuccessionCharaData.card_id p) \<and>
     1 \<le> SuccessionCharaData.talent_level p \<and> SuccessionCharaData.talent_level p \<le> 5 \<and>
     length (SuccessionCharaData.factor_id_array p) \<le> 15 \<and>
     (\<forall>f \<in> set (SuccessionCharaData.factor_id_array p). fits 24 f)"

definition chara_in_range :: "CharaData \<Rightarrow> bool" where
  "chara_in_range c \<longleftrightarrow>
     fits 20 (card_id c) \<and>
     1 \<le> talent_level c \<and> talent_level c \<le> 5 \<and>
     (\<forall>stat \<in> set stat_fields. 0 \<le> stat c \<and> stat c \<le> 2047) \<and>
     (\<forall>apt \<in> set aptitude_fields. 1 \<le> apt c \<and> apt c \<le> 8) \<and>
     length (factor_id_array c) \<le> 15 \<and>
     (\<forall>f \<in> set (factor_id_array c). fits 24 f) \<and>
     length (skill_array c) \<le> 63 \<and>
     (\<forall>s \<in> set (skill_array c). fits 16 (skill_id s)) \<and>
     length (succession_chara_array c) \<le> 3 \<and>
     (\<forall>p \<in> set (succession_chara_array c). parent_in_range p)"

text \<open>
  What a round trip keeps: the identifier of a skill and whether its level is above 1; of a
  parent its \<open>card_id\<close>, \<open>talent_level\<close> and factor ids; of a character its \<open>card_id\<close>,
  \<open>talent_level\<close>, stats, aptitudes, factor ids, skills and parents.
\<close>

definition skill_match :: "SkillData \<Rightarrow> SkillData \<Rightarrow> bool" where
  "skill_match s t \<longleftrightarrow>
     skill_id t = skill_id s \<and> level t = (if level s > 1 then 2 else 1)"

definition parent_match :: "SuccessionCharaData \<Rightarrow> SuccessionCharaData \<Rightarrow> bool" where
  "parent_match p q \<longleftrightarrow>
     SuccessionCharaData.card_id q = SuccessionCharaData.card_id p \<and>
     SuccessionCharaData.talent_level q = SuccessionCharaData.talent_level p \<and>
     SuccessionCharaData.factor_id_array q = SuccessionCharaData.factor_id_array p"

definition chara_match :: "CharaData \<Rightarrow> CharaData \<Rightarrow> bool" where
  "chara_match c d \<longleftrightarrow>
     card_id d = card_id c \<and>
     talent_level d = talent_level c \<and>
     (\<forall>stat \<in> set stat_fields. stat d = stat c) \<and>
     (\<forall>apt \<in> set aptitude_fields. apt d = apt c) \<and>
     factor_id_array d = factor_id_array c \<and>
     list_all2 skill_match (skill_array c) (skill_array d) \<and>
     list_all2 parent_match (succession_chara_array c) (succession_chara_array d)"

text \<open>
  What every decoded record satisfies, whatever the input: each parent's \<open>position_id\<close> is
  its position counted from 1, and the numbers and lists lie within the bounds that the
  field widths give.
\<close>

definition positions_ok :: "SuccessionCharaData list \<Rightarrow> bool" where
  "positions_ok ps \<longleftrightarrow> (\<forall>k < length ps. position_id (ps ! k) = int k + 1)"

definition decoded_ok :: "CharaData \<Rightarrow> bool" where
  "decoded_ok d \<longleftrightarrow>
     1 \<le> talent_level d \<and> talent_level d \<le> 8 \<and>
     (\<forall>apt \<in> set aptitude_fields. 1 \<le> apt d \<and> apt d \<le> 8) \<and>
     (\<forall>stat \<in> set stat_fields. 0 \<le> stat d \<and> stat d \<le> 2047) \<and>
     (\<forall>s \<in> set (skill_array d). level s = 1 \<or> level s = 2) \<and>
     length (factor_id_array d) \<le> 15 \<and>
     length (skill_array d) \<le> 63 \<and>
     length (succession_chara_array d) \<le> 3 \<and>
     positions_ok (succession_chara_array d) \<and>
     rarity d = 3 \<and>
     support_card_list d = []"

section \<open>The decoding loop of the specification\<close>

text \<open>
  The loop of \<open>decodeCharas\<close> as the specification words it: at the first entry for which
  \<open>decodeChara\<close> yields none the loop is left. Only the branch for \<open>None\<close> differs from
  \<open>decode_loop\<close>.
\<close>

function decode_loop_break ::
  "(nat \<Rightarrow> string \<times> int) \<Rightarrow> nat \<Rightarrow> int \<Rightarrow> BitVector \<Rightarrow> CharaData list \<Rightarrow> CharaData list \<times> BitVector" where
  "decode_loop_break env i count bv charas =
     (if int i < count
      then (case decodeChara (env i) bv of
              (Some chara, bv) \<Rightarrow> decode_loop_break env (i + 1) count bv (charas @ [chara])
            | (None, bv) \<Rightarrow> (charas, bv))
      else (charas, bv))"
  by pat_completeness auto
termination
  by (relation "measure (\<lambda>(env, i, count, bv, charas). nat (count - int i))") auto

declare decode_loop_break.simps [simp del]

definition decodeCharas_break :: "(nat \<Rightarrow> string \<times> int) \<Rightarrow> string \<Rightarrow> CharaData list" where
  "decodeCharas_break env encoded =
     (let bv = fromBase64 encoded;
          (version, bv) = read bv 8;
          (count, bv) = read bv 8;
          (charas, bv) = decode_loop_break env 0 count bv []
      in charas)"

section \<open>Sample data\<close>

text \<open>
  A sample environment and a sample record within the documented ranges, for instances of
  the theorems.
\<close>

definition sample_env :: "nat \<Rightarrow> string \<times> int" where
  "sample_env i = (''2026-01-01 00:00:00'', 1000 + int i)"

definition sample_chara :: CharaData where
  "sample_chara =
     \<lparr>card_id = 100101, talent_level = 3, create_time = ''2025-06-30 12:00:00'', rarity = 5,
      chara_seed = 77, speed = 1200, stamina = 0, power = 2047, guts = 431, wiz = 1024,
      proper_distance_short = 1, proper_distance_mile = 8, proper_distance_middle = 7,
      proper_distance_long = 2, proper_ground_turf = 8, proper_ground_dirt = 1,
      proper_running_style_nige = 3, proper_running_style_senko = 6,
      proper_running_style_sashi = 5, proper_running_style_oikomi = 4,
      factor_id_array = [101, 2000302, 16777215],
      skill_array = [\<lparr>skill_id = 10351, level = 1\<rparr>, \<lparr>skill_id = 65535, level = 5\<rparr>],
      succession_chara_array =
        [\<lparr>SuccessionCharaData.card_id = 100201, talent_level = 5,
          factor_id_array = [302, 10110], position_id = 10\<rparr>,
         \<lparr>SuccessionCharaData.card_id = 1048575, talent_level = 1,
          factor_id_array = [], position_id = 20\<rparr>],
      support_card_list = []\<rparr>"

text \<open>A record with no factors, no skills and no parents.\<close>

definition minimal_chara :: CharaData where
  "minimal_chara = sample_chara\<lparr>factor_id_array := [], skill_array := [], succession_chara_array := []\<rparr>"

section \<open>Bits written and bits read\<close>

subsection \<open>The operators on the numbers that occur\<close>

text \<open>
  For a shift count below 32, \<^verbatim>\<open>(v >> i) & 1\<close> is bit \<open>i\<close> of \<open>v\<close>, whatever the size of
  \<open>v\<close>. For \<open>0 \<le> v < 2 ^ 30\<close> and a bit \<open>b\<close>, \<^verbatim>\<open>(v << 1) | b\<close> is \<open>2 * v + b\<close>: the 32 bits
  of the operators are never exceeded by reads of at most 30 bits.
\<close>

lemma sint32_small: "0 \<le> x \<Longrightarrow> x < 2 ^ 31 \<Longrightarrow> sint (word_of_int x :: 32 word) = x"
  by (simp add: sint_sbintrunc' signed_take_bit_int_eq_self)

lemma js_bit: "i < 32 \<Longrightarrow> js_and (js_sar v i) 1 = of_bool (bit v i)"
proof -
  assume i: "i < 32"
  have "odd (signed_drop_bit i (word_of_int v :: 32 word)) \<longleftrightarrow> bit v i"
    using i by (simp add: bit_0 [symmetric] bit_signed_drop_bit_iff bit_word_of_int_iff)
  then show ?thesis
    using i by (simp add: js_and_def js_sar_def and_one_eq ToInt32_def mod_2_eq_odd)
qed

lemma js_shl_or:
  assumes "0 \<le> v" "v < 2 ^ 30" "b = 0 \<or> b = 1"
  shows "js_or (js_shl v 1) b = 2 * v + b"
proof -
  have "js_shl v 1 = sint (push_bit 1 (word_of_int v :: 32 word))"
    by (simp add: js_shl_def ToInt32_def)
  also have "\<dots> = sint (word_of_int (2 * v) :: 32 word)"
    by (simp add: push_bit_eq_mult mult.commute)
  also have "\<dots> = 2 * v"
    using assms(1,2) by (intro sint32_small) auto
  finally have 1: "js_shl v 1 = 2 * v" .
  have 2: "(ToInt32 (2 * v) OR ToInt32 b) = word_of_int (2 * v + b)"
    using assms(3) by (auto simp add: ToInt32_def or_one_eq)
  have "sint (word_of_int (2 * v + b) :: 32 word) = 2 * v + b"
    using assms by (intro sint32_small) auto
  then show ?thesis unfolding js_or_def 1 2 .
qed

subsection \<open>\<open>write\<close> appends the low bits of the value\<close>

lemma wbits_0 [simp]: "wbits v 0 = []"
  by (simp add: wbits_def)

lemma wbits_Suc: "wbits v (Suc n) = of_bool (bit v n) # wbits v n"
  by (simp add: wbits_def)

lemma length_wbits [simp]: "length (wbits v n) = n"
  by (simp add: wbits_def)

lemma is_bits_wbits [simp]: "is_bits (wbits v n)"
  by (auto simp add: wbits_def is_bits_def)

lemma is_bits_Nil [simp]: "is_bits []"
  by (simp add: is_bits_def)

lemma is_bits_append [simp]: "is_bits (xs @ ys) \<longleftrightarrow> is_bits xs \<and> is_bits ys"
  by (auto simp add: is_bits_def)

lemma is_bits_Cons [simp]: "is_bits (x # xs) \<longleftrightarrow> (x = 0 \<or> x = 1) \<and> is_bits xs"
  by (auto simp add: is_bits_def)

lemma is_bits_replicate [simp]: "is_bits (replicate n 0)"
  by (auto simp add: is_bits_def)

lemma write_loop_eq: "n \<le> 32 \<Longrightarrow> write_loop v n bs = bs @ wbits v n"
  by (induction n arbitrary: bs) (simp_all add: wbits_Suc js_bit)

lemma write_bv_eq: "n \<le> 32 \<Longrightarrow> write_bv bv v n = bv\<lparr>bits := bits bv @ wbits v n\<rparr>"
  by (simp add: write_bv_def write_loop_eq)

subsection \<open>\<open>read\<close> gives the number that the next bits denote\<close>

lemma horner_Nil [simp]: "horner v [] = v"
  by (simp add: horner_def)

lemma horner_Cons [simp]: "horner v (b # bs) = horner (2 * v + b) bs"
  by (simp add: horner_def)

lemma horner_shift: "horner v bs = v * 2 ^ length bs + horner 0 bs"
proof (induction bs arbitrary: v)
  case Nil
  show ?case by simp
next
  case (Cons b bs)
  have "horner v (b # bs) = (2 * v + b) * 2 ^ length bs + horner 0 bs"
    using Cons.IH [of "2 * v + b"] by simp
  also have "\<dots> = v * 2 ^ length (b # bs) + (b * 2 ^ length bs + horner 0 bs)"
    by (simp add: algebra_simps)
  also have "b * 2 ^ length bs + horner 0 bs = horner 0 (b # bs)"
    using Cons.IH [of b] by simp
  finally show ?case .
qed

lemma horner_bounds: "is_bits bs \<Longrightarrow> 0 \<le> horner 0 bs \<and> horner 0 bs < 2 ^ length bs"
proof (induction bs)
  case Nil
  show ?case by simp
next
  case (Cons b bs)
  then have b: "b = 0 \<or> b = 1" and ih: "0 \<le> horner 0 bs" "horner 0 bs < 2 ^ length bs"
    by simp_all
  have "horner 0 (b # bs) = b * 2 ^ length bs + horner 0 bs"
    using horner_shift [of b bs] by simp
  then show ?case using b ih by auto
qed

lemma horner_wbits: "horner 0 (wbits v n) = take_bit n v"
proof (induction n)
  case 0
  show ?case by simp
next
  case (Suc n)
  have "horner 0 (wbits v (Suc n)) = of_bool (bit v n) * 2 ^ n + horner 0 (wbits v n)"
    using horner_shift [of "of_bool (bit v n)" "wbits v n"] by (simp add: wbits_Suc)
  then show ?case using Suc by (simp add: take_bit_Suc_from_most)
qed

lemma read_loop_eq:
  "is_bits (map (bit_at (bits bv)) [readPos bv..<readPos bv + k]) \<Longrightarrow> 0 \<le> v \<Longrightarrow> v < 2 ^ m \<Longrightarrow> m + k \<le> 30 \<Longrightarrow>
   read_loop k v bv = (horner v (map (bit_at (bits bv)) [readPos bv..<readPos bv + k]), bv\<lparr>readPos := readPos bv + k\<rparr>)"
proof (induction k arbitrary: v bv m)
  case 0
  show ?case by simp
next
  case (Suc k)
  let ?b = "bit_at (bits bv) (readPos bv)"
  let ?bv = "bv\<lparr>readPos := readPos bv + 1\<rparr>"
  have w: "[readPos bv..<readPos bv + Suc k] = readPos bv # [readPos ?bv..<readPos ?bv + k]"
    by (simp add: upt_rec)
  have b: "?b = 0 \<or> ?b = 1" and r: "is_bits (map (bit_at (bits ?bv)) [readPos ?bv..<readPos ?bv + k])"
    using Suc.prems(1) unfolding w by simp_all
  have "v < 2 ^ 30"
    using Suc.prems(3,4) by (smt (verit) power_increasing add_leD1)
  then have s: "js_or (js_shl v 1) ?b = 2 * v + ?b"
    using Suc.prems(2) b by (intro js_shl_or) auto
  have v': "0 \<le> 2 * v + ?b" "2 * v + ?b < 2 ^ Suc m"
    using Suc.prems(2,3) b by auto
  have "read_loop (Suc k) v bv = read_loop k (2 * v + ?b) ?bv"
    using s by simp
  also have "\<dots> = (horner (2 * v + ?b) (map (bit_at (bits ?bv)) [readPos ?bv..<readPos ?bv + k]),
      ?bv\<lparr>readPos := readPos ?bv + k\<rparr>)"
    using Suc.prems(4) by (intro Suc.IH [OF r v']) simp
  finally show ?case unfolding w by simp
qed

lemma read_eq_window:
  "is_bits (map (bit_at (bits bv)) [readPos bv..<readPos bv + n]) \<Longrightarrow> n \<le> 30 \<Longrightarrow>
   read bv n = (peek (bits bv) (readPos bv) n, bv\<lparr>readPos := readPos bv + n\<rparr>)"
  unfolding read_def peek_def by (rule read_loop_eq [where m = 0]) simp_all

lemma is_bits_window: "is_bits bs \<Longrightarrow> is_bits (map (bit_at bs) xs)"
  by (auto simp add: is_bits_def bit_at_def)

lemma read_eq:
  "is_bits (bits bv) \<Longrightarrow> n \<le> 30 \<Longrightarrow>
   read bv n = (peek (bits bv) (readPos bv) n, bv\<lparr>readPos := readPos bv + n\<rparr>)"
  by (simp add: read_eq_window is_bits_window)

lemma peek_bounds: "is_bits bs \<Longrightarrow> 0 \<le> peek bs p n \<and> peek bs p n < 2 ^ n"
  using horner_bounds [of "map (bit_at bs) [p..<p + n]"] by (simp add: peek_def is_bits_window)

text \<open>Reading \<open>n\<close> bits that \<open>write\<close> has written gives the value reduced to \<open>n\<close> bits.\<close>

lemma window_mk: "map (bit_at (pre @ ws @ suf)) [length pre..<length pre + length ws] = ws"
  by (rule nth_equalityI) (simp_all add: bit_at_def nth_append)

lemma read_mk:
  "n \<le> 30 \<Longrightarrow> read (mk pre (wbits v n @ suf)) n = (take_bit n v, mk (pre @ wbits v n) suf)"
proof -
  assume n: "n \<le> 30"
  have w: "map (bit_at (pre @ wbits v n @ suf)) [length pre..<length pre + n] = wbits v n"
    using window_mk [of pre "wbits v n" suf] by simp
  show ?thesis
    using n by (simp add: read_eq_window mk_def w peek_def horner_wbits)
qed

subsection \<open>What \<open>encodeChara\<close> appends\<close>

lemma write_factors_eq: "write_factors bv fs = bv\<lparr>bits := bits bv @ factors_bits fs\<rparr>"
  by (induction fs arbitrary: bv) (simp_all add: factors_bits_def write_bv_eq)

lemma write_skills_eq: "write_skills bv ss = bv\<lparr>bits := bits bv @ concat (map skill_bits ss)\<rparr>"
  by (induction ss arbitrary: bv) (simp_all add: skill_bits_def write_bv_eq)

lemma write_parents_eq: "write_parents bv ps = bv\<lparr>bits := bits bv @ concat (map parent_bits ps)\<rparr>"
  by (induction ps arbitrary: bv)
    (simp_all add: parent_bits_def write_bv_eq write_factors_eq Let_def)

lemma encodeChara_eq: "encodeChara bv c = bv\<lparr>bits := bits bv @ chara_bits c\<rparr>"
  by (simp add: encodeChara_def chara_bits_def write_bv_eq write_factors_eq write_skills_eq
      write_parents_eq Let_def)

subsection \<open>\<open>decodeChara\<close> on what \<open>encodeChara\<close> appended\<close>

lemma mk_remaining [simp]: "remaining (mk pre suf) = int (length suf)"
  by (simp add: mk_def remaining_def)

lemma take_bit_count: "n < 2 ^ k \<Longrightarrow> take_bit k (int n) = int n"
  by (simp add: take_bit_int_eq_self)

lemma read_factors_mk:
  "n = int (i + length fs) \<Longrightarrow>
   read_factors i n (mk pre (factors_bits fs @ suf)) arr =
     (arr @ map (take_bit 24) fs, mk (pre @ factors_bits fs) suf)"
proof (induction fs arbitrary: i pre arr)
  case Nil
  then show ?case by (simp add: read_factors.simps [of i] factors_bits_def)
next
  case (Cons f fs)
  have "read_factors i n (mk pre (factors_bits (f # fs) @ suf)) arr =
        read_factors (i + 1) n (mk (pre @ wbits f 24) (factors_bits fs @ suf)) (arr @ [take_bit 24 f])"
    using Cons.prems by (simp add: read_factors.simps [of i] factors_bits_def read_mk)
  also have "\<dots> = ((arr @ [take_bit 24 f]) @ map (take_bit 24) fs,
      mk ((pre @ wbits f 24) @ factors_bits fs) suf)"
    using Cons.prems by (intro Cons.IH) simp
  finally show ?case by (simp add: factors_bits_def)
qed

lemma read_skills_mk:
  "n = int (i + length ss) \<Longrightarrow>
   read_skills i n (mk pre (concat (map skill_bits ss) @ suf)) arr =
     (arr @ map decoded_skill ss, mk (pre @ concat (map skill_bits ss)) suf)"
proof (induction ss arbitrary: i pre arr)
  case Nil
  then show ?case by (simp add: read_skills.simps [of i])
next
  case (Cons s ss)
  have "read_skills i n (mk pre (concat (map skill_bits (s # ss)) @ suf)) arr =
        read_skills (i + 1) n (mk (pre @ skill_bits s) (concat (map skill_bits ss) @ suf))
          (arr @ [decoded_skill s])"
    using Cons.prems
    by (simp add: read_skills.simps [of i] skill_bits_def read_mk decoded_skill_def)
  also have "\<dots> = ((arr @ [decoded_skill s]) @ map decoded_skill ss,
      mk ((pre @ skill_bits s) @ concat (map skill_bits ss)) suf)"
    using Cons.prems by (intro Cons.IH) simp
  finally show ?case by simp
qed

lemma read_parents_mk:
  "n = int (i + length ps) \<Longrightarrow>
   read_parents i n (mk pre (concat (map parent_bits ps) @ suf)) arr =
     (arr @ map (\<lambda>(k, p). decoded_parent k p) (enumerate i ps),
      mk (pre @ concat (map parent_bits ps)) suf)"
proof (induction ps arbitrary: i pre arr)
  case Nil
  then show ?case by (simp add: read_parents.simps [of i])
next
  case (Cons p ps)
  have "read_parents i n (mk pre (concat (map parent_bits (p # ps)) @ suf)) arr =
        read_parents (i + 1) n (mk (pre @ parent_bits p) (concat (map parent_bits ps) @ suf))
          (arr @ [decoded_parent i p])"
    using Cons.prems
    by (simp add: read_parents.simps [of i] parent_bits_def read_mk read_factors_mk
        decoded_parent_def take_bit_count)
  also have "\<dots> = ((arr @ [decoded_parent i p]) @ map (\<lambda>(k, p). decoded_parent k p) (enumerate (i + 1) ps),
      mk ((pre @ parent_bits p) @ concat (map parent_bits ps)) suf)"
    using Cons.prems by (intro Cons.IH) simp
  finally show ?case by simp
qed

lemma length_chara_bits:
  "length (chara_bits c) =
     120 + length (factors_bits (take 15 (factor_id_array c)))
         + length (concat (map skill_bits (take 63 (skill_array c))))
         + length (concat (map parent_bits (take 3 (succession_chara_array c))))"
  by (simp add: chara_bits_def)

lemma decodeChara_mk:
  "decodeChara env (mk pre (chara_bits c @ suf)) =
     (Some (decoded_chara env c), mk (pre @ chara_bits c) suf)"
proof -
  have "\<not> remaining (mk pre (chara_bits c @ suf)) < 108"
    by (simp add: length_chara_bits)
  then show ?thesis
    by (simp add: decodeChara_def chara_bits_def decoded_chara_def read_mk read_factors_mk
        read_skills_mk read_parents_mk take_bit_count)
qed

subsection \<open>The alphabet\<close>

lemma indexOf_notin: "c \<notin> set xs \<Longrightarrow> indexOf xs c = - 1"
  by (induction xs) (auto simp add: Let_def)

lemma indexOf_in:
  "c \<in> set xs \<Longrightarrow> 0 \<le> indexOf xs c \<and> indexOf xs c < int (length xs) \<and> xs ! nat (indexOf xs c) = c"
proof (induction xs)
  case Nil
  then show ?case by simp
next
  case (Cons x xs)
  show ?case
  proof (cases "x = c")
    case True
    then show ?thesis by simp
  next
    case False
    with Cons.prems have "c \<in> set xs" by simp
    from Cons.IH [OF this] show ?thesis
      using False by (simp add: Let_def nat_add_distrib)
  qed
qed

lemma indexOf_eq_minus1: "indexOf xs c = - 1 \<longleftrightarrow> c \<notin> set xs"
  using indexOf_in [of c xs] indexOf_notin [of c xs] by auto

lemma indexOf_nth: "distinct xs \<Longrightarrow> k < length xs \<Longrightarrow> indexOf xs (xs ! k) = int k"
proof (induction xs arbitrary: k)
  case Nil
  then show ?case by simp
next
  case (Cons x xs)
  show ?case
  proof (cases k)
    case 0
    then show ?thesis by simp
  next
    case (Suc j)
    with Cons.prems have j: "j < length xs" and d: "distinct xs" and x: "x \<noteq> xs ! j"
      by auto
    from Cons.IH [OF d j] show ?thesis
      using Suc x by (simp add: Let_def)
  qed
qed

lemma length_BASE64_CHARS: "length BASE64_CHARS = 64"
  by (simp add: BASE64_CHARS_def)

lemma distinct_BASE64_CHARS: "distinct BASE64_CHARS"
  by (simp add: BASE64_CHARS_def)

subsection \<open>Text from bits and bits from text\<close>

lemma padToBase64_loop_eq:
  "padToBase64_loop bs = bs @ replicate ((6 - length bs mod 6) mod 6) 0"
proof (induction bs rule: padToBase64_loop.induct)
  case (1 bs)
  show ?case
  proof (cases "length bs mod 6 = 0")
    case True
    then show ?thesis by (simp add: padToBase64_loop.simps [of bs])
  next
    case False
    define r where "r = length bs mod 6"
    have r: "r < 6" "r \<noteq> 0"
      using False by (simp_all add: r_def)
    have s: "Suc (length bs) mod 6 = (if Suc r = 6 then 0 else Suc r)"
      unfolding r_def by (rule mod_Suc)
    have "(6 - r) mod 6 = Suc ((6 - (if Suc r = 6 then 0 else Suc r)) mod 6)"
      using r by (cases "Suc r = 6") auto
    then have k: "(6 - length bs mod 6) mod 6 = Suc ((6 - Suc (length bs) mod 6) mod 6)"
      using s r_def by simp
    have "padToBase64_loop bs = padToBase64_loop (bs @ [0])"
      using False by (simp add: padToBase64_loop.simps [of bs])
    also have "\<dots> = (bs @ [0]) @ replicate ((6 - length (bs @ [0]) mod 6) mod 6) 0"
      using False by (rule "1.IH")
    also have "\<dots> = bs @ replicate (Suc ((6 - Suc (length bs) mod 6) mod 6)) 0"
      by (simp only: length_append_singleton append_assoc replicate_Suc append_Cons append_Nil)
    finally show ?thesis using k by simp
  qed
qed

lemma sextet_loop_eq:
  "j + k = 6 \<Longrightarrow> 0 \<le> v \<Longrightarrow> v < 2 ^ j \<Longrightarrow> is_bits (map (bit_at bs) [i + j..<i + j + k]) \<Longrightarrow>
   sextet_loop bs i j v = horner v (map (bit_at bs) [i + j..<i + j + k])"
proof (induction k arbitrary: j v)
  case 0
  then have "j = 6" by simp
  then show ?case by (simp add: sextet_loop.simps [of bs i 6])
next
  case (Suc k)
  let ?b = "bit_at bs (i + j)"
  have w: "[i + j..<i + j + Suc k] = (i + j) # [i + (j + 1)..<i + (j + 1) + k]"
    by (simp add: upt_rec)
  have b: "?b = 0 \<or> ?b = 1" and r: "is_bits (map (bit_at bs) [i + (j + 1)..<i + (j + 1) + k])"
    using Suc.prems(4) unfolding w by simp_all
  have j: "j < 6" using Suc.prems(1) by simp
  then have "(2::int) ^ j \<le> 2 ^ 30"
    by (intro power_increasing) simp_all
  then have "v < 2 ^ 30" using Suc.prems(3) by simp
  then have s: "js_or (js_shl v 1) ?b = 2 * v + ?b"
    using Suc.prems(2) b by (intro js_shl_or) auto
  have v': "0 \<le> 2 * v + ?b" "2 * v + ?b < 2 ^ (j + 1)"
    using Suc.prems(2,3) b by auto
  have "sextet_loop bs i j v = sextet_loop bs i (j + 1) (2 * v + ?b)"
    using j s by (simp add: sextet_loop.simps [of bs i j])
  also have "\<dots> = horner (2 * v + ?b) (map (bit_at bs) [i + (j + 1)..<i + (j + 1) + k])"
    using Suc.prems(1) by (intro Suc.IH v' r) simp
  finally show ?case unfolding w by simp
qed

lemma sextet_loop_peek:
  "is_bits (map (bit_at bs) [i..<i + 6]) \<Longrightarrow> sextet_loop bs i 0 0 = peek bs i 6"
  using sextet_loop_eq [of 0 6 0 bs i] by (simp add: peek_def)

lemma toBase64_loop_groups:
  "(\<forall>g \<in> set gs. length g = 6 \<and> is_bits g) \<Longrightarrow>
   toBase64_loop (pre @ concat gs) (length pre) res = res @ map sextet_char gs"
proof (induction gs arbitrary: pre res)
  case Nil
  show ?case by (simp add: toBase64_loop.simps [of pre])
next
  case (Cons g gs)
  let ?bs = "pre @ concat (g # gs)"
  have g: "length g = 6" "is_bits g" and gs: "\<forall>g \<in> set gs. length g = 6 \<and> is_bits g"
    using Cons.prems by simp_all
  have w: "map (bit_at ?bs) [length pre..<length pre + 6] = g"
    using window_mk [of pre g "concat gs"] g(1) by simp
  have "sextet_loop ?bs (length pre) 0 0 = peek ?bs (length pre) 6"
    using w g(2) by (intro sextet_loop_peek) simp
  then have s: "sextet_loop ?bs (length pre) 0 0 = horner 0 g"
    using w by (simp add: peek_def)
  have "0 \<le> horner 0 g \<and> horner 0 g < 2 ^ length g"
    using g(2) by (rule horner_bounds)
  then have c: "char_at BASE64_CHARS (horner 0 g) = [sextet_char g]"
    using g(1) by (simp add: char_at_def length_BASE64_CHARS sextet_char_def)
  have "toBase64_loop ?bs (length pre) res = toBase64_loop ?bs (length pre + 6) (res @ [sextet_char g])"
    using g(1) s c by (simp add: toBase64_loop.simps [of "pre @ g @ concat gs" "length pre"])
  also have "\<dots> = toBase64_loop ((pre @ g) @ concat gs) (length (pre @ g)) (res @ [sextet_char g])"
    using g(1) by simp
  also have "\<dots> = (res @ [sextet_char g]) @ map sextet_char gs"
    using gs by (rule Cons.IH)
  finally show ?case by simp
qed

lemma fromBase64_loop_eq:
  "fromBase64_loop s bv =
     bv\<lparr>bits := bits bv @
       concat (map (\<lambda>c. wbits (indexOf BASE64_CHARS c) 6)
         (filter (\<lambda>c. indexOf BASE64_CHARS c \<noteq> - 1) s))\<rparr>"
  by (induction s arbitrary: bv) (simp_all add: Let_def write_loop_eq)

lemma wbits_cong: "take_bit n v = take_bit n w \<Longrightarrow> wbits v n = wbits w n"
proof -
  assume a: "take_bit n v = take_bit n w"
  have "bit v i = bit w i" if "i < n" for i
  proof -
    have "bit (take_bit n v) i = bit (take_bit n w) i" using a by simp
    then show ?thesis using that by (simp add: bit_take_bit_iff)
  qed
  then show ?thesis by (simp add: wbits_def)
qed

lemma wbits_horner: "is_bits g \<Longrightarrow> wbits (horner 0 g) (length g) = g"
proof (induction g)
  case Nil
  show ?case by simp
next
  case (Cons b g)
  let ?n = "length g"
  have b: "b = 0 \<or> b = 1" and g: "is_bits g"
    using Cons.prems by simp_all
  have h: "0 \<le> horner 0 g" "horner 0 g < 2 ^ ?n"
    using horner_bounds [OF g] by simp_all
  have e: "horner 0 (b # g) = b * 2 ^ ?n + horner 0 g"
    using horner_shift [of b g] by simp
  have t: "take_bit ?n (horner 0 (b # g)) = take_bit ?n (horner 0 g)"
    unfolding e by (simp add: take_bit_eq_mod)
  have "horner 0 (b # g) div 2 ^ ?n = b"
    unfolding e using h by simp
  then have "bit (horner 0 (b # g)) ?n \<longleftrightarrow> b = 1"
    using b by (auto simp add: bit_iff_odd)
  then have "of_bool (bit (horner 0 (b # g)) ?n) = b"
    using b by auto
  then show ?case
    using wbits_cong [OF t] Cons.IH [OF g] by (simp add: wbits_Suc)
qed

lemma horner_wbits_small: "0 \<le> v \<Longrightarrow> v < 2 ^ n \<Longrightarrow> horner 0 (wbits v n) = v"
  by (simp add: horner_wbits take_bit_int_eq_self)

lemma sextet_char_in: "length g = 6 \<Longrightarrow> is_bits g \<Longrightarrow>
  indexOf BASE64_CHARS (sextet_char g) = horner 0 g"
proof -
  assume g: "length g = 6" "is_bits g"
  have h: "0 \<le> horner 0 g \<and> horner 0 g < 2 ^ length g"
    using g(2) by (rule horner_bounds)
  then have "nat (horner 0 g) < length BASE64_CHARS"
    using g(1) by (auto simp add: length_BASE64_CHARS)
  from indexOf_nth [OF distinct_BASE64_CHARS this] show ?thesis
    using h by (simp add: sextet_char_def)
qed

lemma fromBase64_loop_groups:
  "(\<forall>g \<in> set gs. length g = 6 \<and> is_bits g) \<Longrightarrow>
   fromBase64_loop (map sextet_char gs) bv = bv\<lparr>bits := bits bv @ concat gs\<rparr>"
proof -
  assume gs: "\<forall>g \<in> set gs. length g = 6 \<and> is_bits g"
  have i: "indexOf BASE64_CHARS (sextet_char g) = horner 0 g" if "g \<in> set gs" for g
    using that gs by (simp add: sextet_char_in)
  have n: "indexOf BASE64_CHARS (sextet_char g) \<noteq> - 1" if "g \<in> set gs" for g
    using that gs i [OF that] horner_bounds [of g] by auto
  have f: "filter (\<lambda>c. indexOf BASE64_CHARS c \<noteq> - 1) (map sextet_char gs) = map sextet_char gs"
    using n by (simp add: filter_id_conv)
  have "map (\<lambda>c. wbits (indexOf BASE64_CHARS c) 6) (map sextet_char gs) = map (\<lambda>g. g) gs"
    unfolding map_map
  proof (rule map_cong [OF refl])
    fix g assume m: "g \<in> set gs"
    then have "length g = 6" "is_bits g" using gs by simp_all
    then show "((\<lambda>c. wbits (indexOf BASE64_CHARS c) 6) \<circ> sextet_char) g = g"
      using i [OF m] wbits_horner [of g] by simp
  qed
  then show ?thesis
    by (simp add: fromBase64_loop_eq f)
qed

lemma groups_exist:
  "length bs = 6 * m \<Longrightarrow> \<exists>gs. bs = concat gs \<and> (\<forall>g \<in> set gs. length g = 6)"
proof (induction m arbitrary: bs)
  case 0
  then have "bs = concat []" by simp
  then show ?case by (intro exI [of _ "[]"]) simp
next
  case (Suc m)
  then have "length (drop 6 bs) = 6 * m" by simp
  from Suc.IH [OF this] obtain gs where gs: "drop 6 bs = concat gs" "\<forall>g \<in> set gs. length g = 6"
    by blast
  have "bs = concat (take 6 bs # gs)"
    using gs(1) by (simp flip: gs(1))
  moreover have "\<forall>g \<in> set (take 6 bs # gs). length g = 6"
    using gs(2) Suc.prems by simp
  ultimately show ?case by blast
qed

lemma length_concat_sextets:
  "(\<forall>g \<in> set gs. length g = 6) \<Longrightarrow> length (concat gs) = 6 * length gs"
  by (induction gs) simp_all

lemma fromBase64_alphabet:
  assumes "set s \<subseteq> set BASE64_CHARS"
  shows "fromBase64 s = \<lparr>bits = concat (map (\<lambda>c. wbits (indexOf BASE64_CHARS c) 6) s), readPos = 0\<rparr>"
proof -
  have "indexOf BASE64_CHARS c \<noteq> - 1" if "c \<in> set s" for c
    using that assms by (auto simp add: indexOf_eq_minus1)
  then have "filter (\<lambda>c. indexOf BASE64_CHARS c \<noteq> - 1) s = s"
    by (simp add: filter_id_conv)
  then show ?thesis
    by (simp add: fromBase64_def fromBase64_loop_eq new_BitVector_def)
qed

lemma sextet_char_wbits:
  assumes "c \<in> set BASE64_CHARS"
  shows "sextet_char (wbits (indexOf BASE64_CHARS c) 6) = c"
proof -
  have i: "0 \<le> indexOf BASE64_CHARS c" "indexOf BASE64_CHARS c < 64"
    "BASE64_CHARS ! nat (indexOf BASE64_CHARS c) = c"
    using indexOf_in [OF assms] by (simp_all add: length_BASE64_CHARS)
  have "horner 0 (wbits (indexOf BASE64_CHARS c) 6) = indexOf BASE64_CHARS c"
    using i(1,2) by (intro horner_wbits_small) simp_all
  then show ?thesis
    using i(3) by (simp add: sextet_char_def)
qed

section \<open>Round trip of a collection\<close>

lemma is_bits_concat: "(\<forall>g \<in> set gs. is_bits g) \<Longrightarrow> is_bits (concat gs)"
  by (induction gs) simp_all

lemma is_bits_concat_iff: "is_bits (concat gs) \<longleftrightarrow> (\<forall>g \<in> set gs. is_bits g)"
  by (induction gs) simp_all

lemma is_bits_factors_bits [simp]: "is_bits (factors_bits fs)"
  by (simp add: factors_bits_def is_bits_concat)

lemma is_bits_skill_bits [simp]: "is_bits (skill_bits s)"
  by (simp add: skill_bits_def)

lemma is_bits_parent_bits [simp]: "is_bits (parent_bits p)"
  by (simp add: parent_bits_def)

lemma is_bits_chara_bits [simp]: "is_bits (chara_bits c)"
  by (simp add: chara_bits_def is_bits_concat)

lemma encode_loop_eq: "encode_loop bv cs = bv\<lparr>bits := bits bv @ concat (map chara_bits cs)\<rparr>"
  by (induction cs arbitrary: bv) (simp_all add: encodeChara_eq)

lemma pad_length: "(n + (6 - n mod 6) mod 6) mod 6 = (0::nat)"
proof -
  define r where "r = n mod 6"
  have r: "r < 6" by (simp add: r_def)
  have "(n + (6 - r) mod 6) mod 6 = (r + (6 - r) mod 6) mod 6"
    unfolding r_def by (simp add: mod_add_left_eq)
  also have "\<dots> = 0"
    using r by (cases "r = 0") simp_all
  finally show ?thesis by (simp add: r_def)
qed

text \<open>The text of a vector of bits gives back these bits, padded with zeros to a multiple of 6.\<close>

lemma fromBase64_toBase64:
  assumes "is_bits (bits bv)"
  shows "fromBase64 (toBase64 bv) =
    \<lparr>bits = bits bv @ replicate ((6 - length (bits bv) mod 6) mod 6) 0, readPos = 0\<rparr>"
proof -
  let ?P = "bits bv @ replicate ((6 - length (bits bv) mod 6) mod 6) 0"
  have "length ?P mod 6 = 0"
    using pad_length [of "length (bits bv)"] by simp
  then have "6 dvd length ?P"
    by (simp only: mod_eq_0_iff_dvd)
  then have "length ?P = 6 * (length ?P div 6)"
    by (rule dvd_mult_div_cancel [symmetric])
  from groups_exist [OF this] obtain gs where gs: "?P = concat gs" "\<forall>g \<in> set gs. length g = 6"
    by blast
  have "is_bits ?P" using assms by simp
  then have b: "\<forall>g \<in> set gs. is_bits g"
    unfolding gs(1) by (simp add: is_bits_concat_iff)
  have g: "\<forall>g \<in> set gs. length g = 6 \<and> is_bits g"
    using gs(2) b by simp
  have "toBase64 bv = toBase64_loop ([] @ concat gs) (length ([] :: int list)) []"
    by (simp add: toBase64_def padToBase64_def padToBase64_loop_eq gs(1))
  also have "\<dots> = [] @ map sextet_char gs"
    using g by (rule toBase64_loop_groups)
  finally have "toBase64 bv = map sextet_char gs" by simp
  then show ?thesis
    by (simp add: fromBase64_def fromBase64_loop_groups [OF g] new_BitVector_def gs(1))
qed

lemma decode_loop_mk:
  "n = int (i + length cs) \<Longrightarrow>
   decode_loop env i n (mk pre (concat (map chara_bits cs) @ suf)) acc =
     (acc @ map (\<lambda>(k, c). decoded_chara (env k) c) (enumerate i cs),
      mk (pre @ concat (map chara_bits cs)) suf)"
proof (induction cs arbitrary: i pre acc)
  case Nil
  then show ?case by (simp add: decode_loop.simps [of env i])
next
  case (Cons c cs)
  have "decode_loop env i n (mk pre (concat (map chara_bits (c # cs)) @ suf)) acc =
        decode_loop env (i + 1) n (mk (pre @ chara_bits c) (concat (map chara_bits cs) @ suf))
          (acc @ [decoded_chara (env i) c])"
    using Cons.prems by (simp add: decode_loop.simps [of env i] decodeChara_mk)
  also have "\<dots> = ((acc @ [decoded_chara (env i) c]) @
      map (\<lambda>(k, c). decoded_chara (env k) c) (enumerate (i + 1) cs),
      mk ((pre @ chara_bits c) @ concat (map chara_bits cs)) suf)"
    using Cons.prems by (intro Cons.IH) simp
  finally show ?case by simp
qed

text \<open>The round trip of a collection, without any condition on the records.\<close>

lemma decodeCharas_encodeCharas:
  "decodeCharas env (encodeCharas cs) =
     map (\<lambda>(k, c). decoded_chara (env k) c) (enumerate 0 (take 255 cs))"
proof -
  let ?cs = "take 255 cs"
  let ?n = "min (int (length cs)) 255"
  let ?B = "wbits ENCODING_VERSION 8 @ wbits ?n 8 @ concat (map chara_bits ?cs)"
  define pad where "pad = replicate ((6 - length ?B mod 6) mod 6) (0::int)"
  have e: "encodeCharas cs = toBase64 \<lparr>bits = ?B, readPos = 0\<rparr>"
    by (simp add: encodeCharas_def new_BitVector_def write_bv_eq encode_loop_eq Let_def)
  have "is_bits ?B"
    by (simp add: is_bits_concat)
  then have "fromBase64 (encodeCharas cs) = \<lparr>bits = ?B @ pad, readPos = 0\<rparr>"
    unfolding e pad_def using fromBase64_toBase64 [of "\<lparr>bits = ?B, readPos = 0\<rparr>"] by simp
  then have f: "fromBase64 (encodeCharas cs) =
      mk [] (wbits ENCODING_VERSION 8 @ wbits ?n 8 @ concat (map chara_bits ?cs) @ pad)"
    by (simp add: mk_def)
  have n: "take_bit 8 ?n = int (length ?cs)"
    by (simp add: take_bit_int_eq_self min_def)
  have "decode_loop env 0 (int (length ?cs))
          (mk (wbits ENCODING_VERSION 8 @ wbits ?n 8) (concat (map chara_bits ?cs) @ pad)) [] =
        ([] @ map (\<lambda>(k, c). decoded_chara (env k) c) (enumerate 0 ?cs),
         mk ((wbits ENCODING_VERSION 8 @ wbits ?n 8) @ concat (map chara_bits ?cs)) pad)"
    by (rule decode_loop_mk) simp
  then show ?thesis
    unfolding decodeCharas_def f by (simp add: read_mk n)
qed

subsection \<open>Records within the documented ranges\<close>

lemma take_bit_fits: "fits n v \<Longrightarrow> take_bit n v = v"
  by (simp add: fits_def take_bit_int_eq_self)

lemma take_bit_biased: "1 \<le> v \<Longrightarrow> v \<le> 8 \<Longrightarrow> take_bit 3 (v - 1) + 1 = v"
  for v :: int
  by (simp add: take_bit_int_eq_self)

lemma take_bit_stat: "0 \<le> v \<Longrightarrow> v \<le> 2047 \<Longrightarrow> take_bit 11 v = v"
  for v :: int
  by (simp add: take_bit_int_eq_self)

lemma map_take_bit_fits: "(\<forall>f \<in> set fs. fits n f) \<Longrightarrow> map (take_bit n) fs = fs"
  by (induction fs) (simp_all add: take_bit_fits)

lemma decoded_skills_match:
  "(\<forall>s \<in> set ss. fits 16 (skill_id s)) \<Longrightarrow> list_all2 skill_match ss (map decoded_skill ss)"
  by (induction ss) (simp_all add: skill_match_def decoded_skill_def take_bit_fits)

lemma decoded_parents_match:
  "(\<forall>p \<in> set ps. parent_in_range p) \<Longrightarrow>
   list_all2 parent_match ps (map (\<lambda>(k, p). decoded_parent k p) (enumerate i ps))"
  by (induction ps arbitrary: i)
    (simp_all add: parent_match_def decoded_parent_def parent_in_range_def take_bit_fits
      take_bit_biased map_take_bit_fits)

lemma decoded_chara_match: "chara_in_range c \<Longrightarrow> chara_match c (decoded_chara e c)"
  by (simp add: chara_in_range_def chara_match_def decoded_chara_def stat_fields_def
      aptitude_fields_def take_bit_fits take_bit_biased take_bit_stat map_take_bit_fits
      decoded_skills_match decoded_parents_match)

lemma nth_round_trip:
  assumes "i < length cs" "i < 255"
  shows "decodeCharas env (encodeCharas cs) ! i = decoded_chara (env i) (cs ! i)"
  using assms by (simp add: decodeCharas_encodeCharas nth_enumerate_eq)

lemma length_round_trip: "length (decodeCharas env (encodeCharas cs)) = min (length cs) 255"
  by (simp add: decodeCharas_encodeCharas)

section \<open>Decoding arbitrary input\<close>

subsection \<open>The loops of \<open>decodeChara\<close>\<close>

text \<open>Reading moves the cursor and leaves the bits as they are.\<close>

lemma bits_read_loop: "bits (snd (read_loop k v bv)) = bits bv"
  by (induction k arbitrary: v bv) simp_all

lemma bits_read [simp]: "bits (snd (read bv n)) = bits bv"
  by (simp add: read_def bits_read_loop)

lemma read_bounds:
  "is_bits (bits bv) \<Longrightarrow> n \<le> 30 \<Longrightarrow> 0 \<le> fst (read bv n) \<and> fst (read bv n) < 2 ^ n"
  using peek_bounds [of "bits bv" "readPos bv" n] by (simp add: read_eq)

lemma bits_read_factors [simp]: "bits (snd (read_factors i n bv arr)) = bits bv"
proof (induction i n bv arr rule: read_factors.induct)
  case (1 i n bv arr)
  show ?case
  proof (cases "int i < n")
    case True
    then have "bits (snd (read_factors i n bv arr)) =
        bits (snd (read_factors (i + 1) n (snd (read bv 24)) (arr @ [fst (read bv 24)])))"
      by (simp add: read_factors.simps [of i n bv arr] split_beta)
    also have "\<dots> = bits (snd (read bv 24))"
      using True by (intro "1.IH") (simp_all add: prod_eq_iff)
    finally show ?thesis by simp
  next
    case False
    then show ?thesis by (simp add: read_factors.simps [of i n bv arr])
  qed
qed

lemma length_read_factors:
  "length (fst (read_factors i n bv arr)) = length arr + nat (n - int i)"
proof (induction i n bv arr rule: read_factors.induct)
  case (1 i n bv arr)
  show ?case
  proof (cases "int i < n")
    case True
    then have "length (fst (read_factors i n bv arr)) =
        length (fst (read_factors (i + 1) n (snd (read bv 24)) (arr @ [fst (read bv 24)])))"
      by (simp add: read_factors.simps [of i n bv arr] split_beta)
    also have "\<dots> = length (arr @ [fst (read bv 24)]) + nat (n - int (i + 1))"
      using True by (intro "1.IH") (simp_all add: prod_eq_iff)
    finally show ?thesis using True by simp
  next
    case False
    then show ?thesis by (simp add: read_factors.simps [of i n bv arr])
  qed
qed

lemma read_skills_step:
  "int i < n \<Longrightarrow>
   read_skills i n bv arr =
     read_skills (i + 1) n (snd (read (snd (read bv 16)) 1))
       (arr @ [\<lparr>skill_id = fst (read bv 16),
                level = (if fst (read (snd (read bv 16)) 1) \<noteq> 0 then 2 else 1)\<rparr>])"
  by (simp add: read_skills.simps [of i n bv arr] split_beta)

lemma read_skills_stop: "\<not> int i < n \<Longrightarrow> read_skills i n bv arr = (arr, bv)"
  by (simp add: read_skills.simps [of i n bv arr])

lemma read_skills_props:
  "m = nat (n - int i) \<Longrightarrow>
   bits (snd (read_skills i n bv arr)) = bits bv \<and>
   length (fst (read_skills i n bv arr)) = length arr + m \<and>
   ((\<forall>s \<in> set arr. level s = 1 \<or> level s = 2) \<longrightarrow>
    (\<forall>s \<in> set (fst (read_skills i n bv arr)). level s = 1 \<or> level s = 2))"
proof (induction m arbitrary: i bv arr)
  case 0
  then have "\<not> int i < n" by simp
  then show ?case by (simp add: read_skills_stop)
next
  case (Suc m)
  then have lt: "int i < n" and m: "m = nat (n - int (i + 1))" by simp_all
  let ?bv = "snd (read (snd (read bv 16)) 1)"
  let ?s = "\<lparr>skill_id = fst (read bv 16),
             level = (if fst (read (snd (read bv 16)) 1) \<noteq> 0 then 2 else 1)\<rparr>"
  have eq: "read_skills i n bv arr = read_skills (i + 1) n ?bv (arr @ [?s])"
    using lt by (rule read_skills_step)
  have "level ?s = 1 \<or> level ?s = 2" by simp
  then show ?case
    unfolding eq using Suc.IH [OF m, of ?bv "arr @ [?s]"] by simp
qed

lemma read_parents_step:
  "int i < n \<Longrightarrow>
   read_parents i n bv arr =
     read_parents (i + 1) n
       (snd (read_factors 0 (fst (read (snd (read (snd (read bv 20)) 3)) 4))
          (snd (read (snd (read (snd (read bv 20)) 3)) 4)) []))
       (arr @ [\<lparr>SuccessionCharaData.card_id = fst (read bv 20),
                talent_level = fst (read (snd (read bv 20)) 3) + 1,
                factor_id_array =
                  fst (read_factors 0 (fst (read (snd (read (snd (read bv 20)) 3)) 4))
                    (snd (read (snd (read (snd (read bv 20)) 3)) 4)) []),
                position_id = int i + 1\<rparr>])"
  by (simp add: read_parents.simps [of i n bv arr] split_beta Let_def)

lemma read_parents_stop: "\<not> int i < n \<Longrightarrow> read_parents i n bv arr = (arr, bv)"
  by (simp add: read_parents.simps [of i n bv arr])

lemma positions_ok_snoc:
  "positions_ok (ps @ [p]) \<longleftrightarrow> positions_ok ps \<and> position_id p = int (length ps) + 1"
  by (auto simp add: positions_ok_def nth_append less_Suc_eq)

lemma read_parents_props:
  "m = nat (n - int i) \<Longrightarrow>
   bits (snd (read_parents i n bv arr)) = bits bv \<and>
   length (fst (read_parents i n bv arr)) = length arr + m \<and>
   (length arr = i \<and> positions_ok arr \<longrightarrow> positions_ok (fst (read_parents i n bv arr)))"
proof (induction m arbitrary: i bv arr)
  case 0
  then have "\<not> int i < n" by simp
  then show ?case by (simp add: read_parents_stop)
next
  case (Suc m)
  then have lt: "int i < n" and m: "m = nat (n - int (i + 1))" by simp_all
  show ?case
    unfolding read_parents_step [OF lt] using Suc.IH [OF m] by (simp add: positions_ok_snoc)
qed

lemma bits_read_skills [simp]: "bits (snd (read_skills i n bv arr)) = bits bv"
  using read_skills_props [OF refl] by blast

lemma bits_read_parents [simp]: "bits (snd (read_parents i n bv arr)) = bits bv"
  using read_parents_props [OF refl] by blast

lemma read_nonneg: "is_bits (bits bv) \<Longrightarrow> n \<le> 30 \<Longrightarrow> 0 \<le> fst (read bv n)"
  using read_bounds [of bv n] by simp

lemma read_biased: "is_bits (bits bv) \<Longrightarrow> fst (read bv 3) \<le> 7"
  using read_bounds [of bv 3] by simp

lemma read_stat: "is_bits (bits bv) \<Longrightarrow> fst (read bv 11) \<le> 2047"
  using read_bounds [of bv 11] by simp

lemma read_factors_count:
  "is_bits (bits bv) \<Longrightarrow> length (fst (read_factors 0 (fst (read bv 4)) bv' [])) \<le> 15"
  using read_bounds [of bv 4] by (auto simp add: length_read_factors)

lemma read_skills_count:
  "is_bits (bits bv) \<Longrightarrow> length (fst (read_skills 0 (fst (read bv 6)) bv' [])) \<le> 63"
  using read_bounds [of bv 6] read_skills_props [of _ "fst (read bv 6)" 0 bv' "[]"] by auto

lemma read_skills_levels:
  "\<forall>s \<in> set (fst (read_skills 0 n bv [])). level s = 1 \<or> level s = 2"
  using read_skills_props [of _ n 0 bv "[]"] by simp

lemma read_parents_count:
  "is_bits (bits bv) \<Longrightarrow> length (fst (read_parents 0 (fst (read bv 2)) bv' [])) \<le> 3"
  using read_bounds [of bv 2] read_parents_props [of _ "fst (read bv 2)" 0 bv' "[]"] by auto

lemma read_parents_positions: "positions_ok (fst (read_parents 0 n bv []))"
  using read_parents_props [of _ n 0 bv "[]"] by (simp add: positions_ok_def)

subsection \<open>\<open>decodeChara\<close> and the loop of \<open>decodeCharas\<close>\<close>

lemma decodeChara_None: "remaining bv < 108 \<Longrightarrow> decodeChara env bv = (None, bv)"
  by (simp add: decodeChara_def)

lemma decodeChara_Some:
  assumes "\<not> remaining bv < 108"
  shows "\<exists>d bv'. decodeChara env bv = (Some d, bv') \<and> bits bv' = bits bv \<and>
    (is_bits (bits bv) \<longrightarrow> decoded_ok d)"
  using assms
  by (simp add: decodeChara_def split_beta Let_def decoded_ok_def stat_fields_def
      aptitude_fields_def read_nonneg read_biased read_stat read_factors_count read_skills_count
      read_skills_levels read_parents_count read_parents_positions)

lemma decodeChara_cases:
  obtains (None) "remaining bv < 108" "decodeChara env bv = (None, bv)"
  | (Some) d bv' where "\<not> remaining bv < 108" "decodeChara env bv = (Some d, bv')"
      "bits bv' = bits bv" "is_bits (bits bv) \<Longrightarrow> decoded_ok d"
  using decodeChara_None [of bv env] decodeChara_Some [of bv env] by (cases "remaining bv < 108") auto

lemma decodeChara_None_iff: "fst (decodeChara env bv) = None \<longleftrightarrow> remaining bv < 108"
  by (cases rule: decodeChara_cases [of bv env]) simp_all

text \<open>
  The guard of \<open>decodeChara\<close> lets streams pass that hold fewer bits than any record: with
  108 to 119 bits left a record is returned, its last fields read from absent bits.
\<close>

lemma guard_below_record_size:
  "108 \<le> remaining bv \<Longrightarrow> remaining bv < 120 \<Longrightarrow>
   fst (decodeChara env bv) \<noteq> None \<and> remaining bv < int (length (chara_bits c))"
  by (simp add: decodeChara_None_iff length_chara_bits)

lemma decode_loop_stop: "\<not> int i < n \<Longrightarrow> decode_loop env i n bv acc = (acc, bv)"
  by (simp add: decode_loop.simps [of env i n bv acc])

lemma decode_loop_Some:
  "int i < n \<Longrightarrow> decodeChara (env i) bv = (Some d, bv') \<Longrightarrow>
   decode_loop env i n bv acc = decode_loop env (i + 1) n bv' (acc @ [d])"
  by (simp add: decode_loop.simps [of env i n bv acc])

lemma decode_loop_None:
  "int i < n \<Longrightarrow> decodeChara (env i) bv = (None, bv') \<Longrightarrow>
   decode_loop env i n bv acc = decode_loop env (i + 1) n bv' acc"
  by (simp add: decode_loop.simps [of env i n bv acc])

text \<open>Once fewer than 108 bits remain, the loop changes nothing any more.\<close>

lemma decode_loop_exhausted:
  "m = nat (n - int i) \<Longrightarrow> remaining bv < 108 \<Longrightarrow> decode_loop env i n bv acc = (acc, bv)"
proof (induction m arbitrary: i)
  case 0
  then have "\<not> int i < n" by simp
  then show ?case by (rule decode_loop_stop)
next
  case (Suc m)
  then have lt: "int i < n" and m: "m = nat (n - int (i + 1))" by simp_all
  have "decode_loop env i n bv acc = decode_loop env (i + 1) n bv acc"
    using lt decodeChara_None [OF Suc.prems(2)] by (rule decode_loop_None)
  then show ?case using Suc.IH [OF m Suc.prems(2)] by simp
qed

lemma decode_loop_props:
  "m = nat (n - int i) \<Longrightarrow> is_bits (bits bv) \<Longrightarrow> \<forall>d \<in> set acc. decoded_ok d \<Longrightarrow>
   (\<forall>d \<in> set (fst (decode_loop env i n bv acc)). decoded_ok d) \<and>
   length (fst (decode_loop env i n bv acc)) \<le> length acc + m"
proof (induction m arbitrary: i bv acc)
  case 0
  then have "\<not> int i < n" by simp
  then have "decode_loop env i n bv acc = (acc, bv)" by (rule decode_loop_stop)
  then show ?case using "0.prems"(3) by simp
next
  case (Suc m)
  then have lt: "int i < n" and m: "m = nat (n - int (i + 1))" by simp_all
  show ?case
  proof (cases rule: decodeChara_cases [of bv "env i"])
    case None
    have "decode_loop env i n bv acc = (acc, bv)"
      using refl None(1) by (rule decode_loop_exhausted)
    then show ?thesis
      using Suc.prems(3) by simp
  next
    case (Some d bv')
    have eq: "decode_loop env i n bv acc = decode_loop env (i + 1) n bv' (acc @ [d])"
      using lt Some(2) by (rule decode_loop_Some)
    have b: "is_bits (bits bv')"
      using Some(3) Suc.prems(2) by simp
    have "decoded_ok d"
      using Some(4) Suc.prems(2) by simp
    then have a: "\<forall>x \<in> set (acc @ [d]). decoded_ok x"
      using Suc.prems(3) by simp
    have "(\<forall>x \<in> set (fst (decode_loop env (i + 1) n bv' (acc @ [d]))). decoded_ok x) \<and>
        length (fst (decode_loop env (i + 1) n bv' (acc @ [d]))) \<le> length (acc @ [d]) + m"
      using m b a by (rule Suc.IH)
    then show ?thesis
      unfolding eq by simp
  qed
qed

text \<open>The loop of the source and the loop that is left at the first failure agree.\<close>

lemma decode_loop_break_eq:
  "m = nat (n - int i) \<Longrightarrow> decode_loop env i n bv acc = decode_loop_break env i n bv acc"
proof (induction m arbitrary: i bv acc)
  case 0
  then have s: "\<not> int i < n" by simp
  then have "decode_loop_break env i n bv acc = (acc, bv)"
    by (simp add: decode_loop_break.simps [of env i n bv acc])
  then show ?case
    using decode_loop_stop [OF s] by simp
next
  case (Suc m)
  then have lt: "int i < n" and m: "m = nat (n - int (i + 1))" by simp_all
  show ?case
  proof (cases rule: decodeChara_cases [of bv "env i"])
    case None
    have l: "decode_loop env i n bv acc = (acc, bv)"
      using refl None(1) by (rule decode_loop_exhausted)
    have "decode_loop_break env i n bv acc =
        (case decodeChara (env i) bv of
           (Some chara, bv) \<Rightarrow> decode_loop_break env (i + 1) n bv (acc @ [chara])
         | (None, bv) \<Rightarrow> (acc, bv))"
      using lt by (simp add: decode_loop_break.simps [of env i n bv acc])
    also have "\<dots> = (acc, bv)"
      unfolding None(2) by simp
    finally show ?thesis
      using l by simp
  next
    case (Some d bv')
    have "decode_loop_break env i n bv acc =
        (case decodeChara (env i) bv of
           (Some chara, bv) \<Rightarrow> decode_loop_break env (i + 1) n bv (acc @ [chara])
         | (None, bv) \<Rightarrow> (acc, bv))"
      using lt by (simp add: decode_loop_break.simps [of env i n bv acc])
    also have "\<dots> = decode_loop_break env (i + 1) n bv' (acc @ [d])"
      unfolding Some(2) by simp
    finally have r: "decode_loop_break env i n bv acc =
        decode_loop_break env (i + 1) n bv' (acc @ [d])" .
    have "decode_loop env i n bv acc = decode_loop env (i + 1) n bv' (acc @ [d])"
      using lt Some(2) by (rule decode_loop_Some)
    also have "\<dots> = decode_loop_break env (i + 1) n bv' (acc @ [d])"
      using m by (rule Suc.IH)
    finally show ?thesis
      using r by simp
  qed
qed

subsection \<open>Input that is shorter than the header\<close>

lemma readPos_read_loop: "readPos (snd (read_loop k v bv)) = readPos bv + k"
  by (induction k arbitrary: v bv) simp_all

lemma readPos_read [simp]: "readPos (snd (read bv n)) = readPos bv + n"
  by (simp add: read_def readPos_read_loop)

lemma is_bits_fromBase64 [simp]: "is_bits (bits (fromBase64 s))"
  by (simp add: fromBase64_def fromBase64_loop_eq new_BitVector_def is_bits_concat)

lemma readPos_fromBase64 [simp]: "readPos (fromBase64 s) = 0"
  by (simp add: fromBase64_def fromBase64_loop_eq new_BitVector_def)

lemma bits_fromBase64_no_alphabet:
  "\<forall>c \<in> set s. c \<notin> set BASE64_CHARS \<Longrightarrow> bits (fromBase64 s) = []"
proof -
  assume "\<forall>c \<in> set s. c \<notin> set BASE64_CHARS"
  then have "filter (\<lambda>c. indexOf BASE64_CHARS c \<noteq> - 1) s = []"
    by (simp add: indexOf_eq_minus1 filter_empty_conv)
  then show ?thesis
    by (simp add: fromBase64_def fromBase64_loop_eq new_BitVector_def)
qed

lemma decodeCharas_unfold:
  "decodeCharas env s =
     fst (decode_loop env 0 (fst (read (snd (read (fromBase64 s) 8)) 8))
       (snd (read (snd (read (fromBase64 s) 8)) 8)) [])"
  by (simp add: decodeCharas_def split_beta Let_def)

lemma short_input_empty:
  assumes "length (bits (fromBase64 s)) < 16"
  shows "decodeCharas env s = []"
proof -
  let ?bv = "snd (read (snd (read (fromBase64 s) 8)) 8)"
  have "remaining ?bv < 108"
    using assms by (simp add: remaining_def)
  with refl have "decode_loop env 0 (fst (read (snd (read (fromBase64 s) 8)) 8)) ?bv [] = ([], ?bv)"
    by (rule decode_loop_exhausted)
  then show ?thesis
    by (simp add: decodeCharas_unfold)
qed

section \<open>The claims\<close>

text \<open>
  C1. For every collection \<open>cs\<close> of records whose fields are within the documented ranges
  (\<open>chara_in_range\<close>), \<open>decodeCharas (encodeCharas cs)\<close> has \<open>min (length cs) 255\<close> records,
  and its \<open>i\<close>-th record has the \<open>card_id\<close>, the \<open>talent_level\<close>, the five stats, the ten
  aptitudes and the factor ids of the \<open>i\<close>-th record of \<open>cs\<close>, its skill ids with each level
  mapped to 2 if it was greater than 1 and to 1 otherwise, and for each parent its \<open>card_id\<close>,
  \<open>talent_level\<close> and factor ids (\<open>chara_match\<close>). Collections of 0 to 255 records are the
  case \<open>min (length cs) 255 = length cs\<close>.
\<close>

theorem round_trip_collection:
  assumes "\<forall>c \<in> set cs. chara_in_range c"
  shows "length (decodeCharas env (encodeCharas cs)) = min (length cs) 255 \<and>
    (\<forall>i < min (length cs) 255. chara_match (cs ! i) (decodeCharas env (encodeCharas cs) ! i))"
proof (intro conjI allI impI)
  show "length (decodeCharas env (encodeCharas cs)) = min (length cs) 255"
    by (rule length_round_trip)
next
  fix i assume i: "i < min (length cs) 255"
  then have "chara_in_range (cs ! i)"
    using assms by simp
  then show "chara_match (cs ! i) (decodeCharas env (encodeCharas cs) ! i)"
    using i by (simp add: nth_round_trip decoded_chara_match)
qed

theorem round_trip_collection_witness:
  "chara_in_range sample_chara \<and>
   length (decodeCharas sample_env (encodeCharas [sample_chara])) = 1 \<and>
   chara_match sample_chara (decodeCharas sample_env (encodeCharas [sample_chara]) ! 0)"
  using round_trip_collection [of "[sample_chara]" sample_env]
  by (simp add: chara_in_range_def parent_in_range_def fits_def stat_fields_def
      aptitude_fields_def sample_chara_def)

text \<open>
  C2. In \<open>decodeCharas\<close>, when \<open>decodeChara\<close> yields none for a declared entry, the loop ends
  with the records decoded before that entry: nothing is appended for it or for a later
  entry. The loop of the source has no \<^verbatim>\<open>break\<close> and still visits the remaining
  indices, to no effect: it computes what the loop that is left at the first none
  (\<open>decode_loop_break\<close>) computes, and \<open>decodeCharas\<close> what \<open>decodeCharas_break\<close> computes.
\<close>

theorem decode_stops_at_none:
  "(int i < count \<and> fst (decodeChara (env i) bv) = None \<longrightarrow>
      decode_loop env i count bv charas = (charas, bv)) \<and>
   decode_loop env i count bv charas = decode_loop_break env i count bv charas \<and>
   decodeCharas env encoded = decodeCharas_break env encoded"
proof (intro conjI impI)
  assume "int i < count \<and> fst (decodeChara (env i) bv) = None"
  then have "remaining bv < 108"
    by (simp add: decodeChara_None_iff)
  with refl show "decode_loop env i count bv charas = (charas, bv)"
    by (rule decode_loop_exhausted)
next
  show "decode_loop env i count bv charas = decode_loop_break env i count bv charas"
    using refl by (rule decode_loop_break_eq)
next
  have "decode_loop env 0 n b [] = decode_loop_break env 0 n b []" for n b
    using refl by (rule decode_loop_break_eq)
  then show "decodeCharas env encoded = decodeCharas_break env encoded"
    by (simp add: decodeCharas_def decodeCharas_break_def)
qed

theorem decode_stops_at_none_witness:
  "decode_loop sample_env 1 3 \<lparr>bits = replicate 100 1, readPos = 0\<rparr> [sample_chara] =
     ([sample_chara], \<lparr>bits = replicate 100 1, readPos = 0\<rparr>)"
  using decode_stops_at_none [of 1 3 sample_env "\<lparr>bits = replicate 100 1, readPos = 0\<rparr>" "[sample_chara]"]
  by (simp add: decodeChara_None_iff remaining_def)

text \<open>
  C3, amended. The smallest record takes 120 bits, not 108: for a record with no factors, no
  skills and no parents \<open>encodeChara\<close> appends exactly 120 bits, and for no record fewer.
  \<open>decodeChara\<close> returns none whenever fewer than 108 bits remain unread, and a record
  whenever at least 120 bits remain.
\<close>

theorem minimal_record_size:
  "(factor_id_array c = [] \<and> skill_array c = [] \<and> succession_chara_array c = [] \<longrightarrow>
      length (bits (encodeChara bv c)) = length (bits bv) + 120) \<and>
   length (bits bv) + 120 \<le> length (bits (encodeChara bv c)) \<and>
   (remaining bv' < 108 \<longrightarrow> fst (decodeChara env bv') = None) \<and>
   (120 \<le> remaining bv' \<longrightarrow> fst (decodeChara env bv') \<noteq> None)"
proof (intro conjI impI)
  have appended: "length (bits (encodeChara bv c)) = length (bits bv) + length (chara_bits c)"
    by (simp add: encodeChara_eq)
  show "length (bits bv) + 120 \<le> length (bits (encodeChara bv c))"
    unfolding appended by (simp add: length_chara_bits)
  assume "factor_id_array c = [] \<and> skill_array c = [] \<and> succession_chara_array c = []"
  then have "length (chara_bits c) = 120"
    by (simp add: length_chara_bits factors_bits_def)
  then show "length (bits (encodeChara bv c)) = length (bits bv) + 120"
    unfolding appended by simp
next
  assume "remaining bv' < 108"
  then show "fst (decodeChara env bv') = None"
    by (simp add: decodeChara_None)
next
  assume "120 \<le> remaining bv'"
  then have "\<not> remaining bv' < 108"
    by simp
  then show "fst (decodeChara env bv') \<noteq> None"
    by (simp add: decodeChara_None_iff)
qed

theorem minimal_record_size_witness:
  "length (bits (encodeChara new_BitVector minimal_chara)) = 120 \<and>
   fst (decodeChara (sample_env 0) new_BitVector) = None \<and>
   fst (decodeChara (sample_env 0) (encodeChara new_BitVector minimal_chara)) \<noteq> None"
  using minimal_record_size [of minimal_chara new_BitVector new_BitVector "sample_env 0"]
    minimal_record_size [of minimal_chara new_BitVector "encodeChara new_BitVector minimal_chara" "sample_env 0"]
  by (simp add: minimal_chara_def new_BitVector_def remaining_def encodeChara_eq)

text \<open>
  With 108 in the place of 120 the statement fails: for the record \<open>minimal_chara\<close>, which
  has no factors, no skills and no parents, \<open>encodeChara\<close> appends 120 bits to the empty
  stream.
\<close>

theorem minimal_record_not_108:
  "length (bits (encodeChara new_BitVector minimal_chara)) = 120 \<and>
   length (bits (encodeChara new_BitVector minimal_chara)) \<noteq> 108"
  by (simp add: encodeChara_eq length_chara_bits minimal_chara_def new_BitVector_def
      factors_bits_def)

text \<open>
  C4. \<open>decodeCharas\<close> is a total function: no statement of its body raises, so every string
  gives a list. For the empty string, for a string without any character of the alphabet and
  for a string that gives fewer than the 16 bits of the header, the list is empty.
\<close>

theorem decode_short_input:
  assumes "encoded = [] \<or> (\<forall>c \<in> set encoded. c \<notin> set BASE64_CHARS) \<or>
    length (bits (fromBase64 encoded)) < 16"
  shows "decodeCharas env encoded = []"
proof -
  have "length (bits (fromBase64 encoded)) < 16"
    using assms bits_fromBase64_no_alphabet [of encoded] by auto
  then show ?thesis by (rule short_input_empty)
qed

theorem decode_short_input_witness:
  "decodeCharas sample_env [] = [] \<and> decodeCharas sample_env ''#! ?'' = [] \<and>
   decodeCharas sample_env ''A_'' = []"
  using decode_short_input [of "[]" sample_env] decode_short_input [of "''#! ?''" sample_env]
    decode_short_input [of "''A_''" sample_env]
  by (simp add: BASE64_CHARS_def fromBase64_def fromBase64_loop_eq new_BitVector_def)

text \<open>
  C5. \<open>encodeChara\<close> writes each of the five stats as the 11 low bits of
  \<open>min stat 2047\<close>, with no lower clamp, so the decoded stat is \<open>min stat 2047 mod 2048\<close>;
  a stat above 2047 (5000, say) comes back as 2047. This holds for every record among the
  first 255 of a collection, whatever its other fields.
\<close>

theorem stats_clamped:
  assumes "i < min (length cs) 255" and "stat \<in> set stat_fields"
  shows "stat (decodeCharas env (encodeCharas cs) ! i) = min (stat (cs ! i)) 2047 mod 2048 \<and>
    (2047 < stat (cs ! i) \<longrightarrow> stat (decodeCharas env (encodeCharas cs) ! i) = 2047)"
proof -
  have "decodeCharas env (encodeCharas cs) ! i = decoded_chara (env i) (cs ! i)"
    using assms(1) by (simp add: nth_round_trip)
  then show ?thesis
    using assms(2) by (auto simp add: stat_fields_def decoded_chara_def take_bit_eq_mod)
qed

theorem stats_clamped_witness:
  "speed (decodeCharas sample_env (encodeCharas [sample_chara\<lparr>speed := 5000\<rparr>]) ! 0) = 2047"
  using stats_clamped [of 0 "[sample_chara\<lparr>speed := 5000\<rparr>]" speed sample_env]
  by (simp add: stat_fields_def)

text \<open>
  C6. \<open>encodeChara\<close> keeps the first 15 factor ids, in their order: for every record among
  the first 255 of a collection whose factor ids fit 24 bits, the decoded factor list is the
  list of the first 15 factor ids of the original; a record with 20 factor ids comes back
  with exactly its first 15.
\<close>

theorem factors_truncated:
  assumes "i < min (length cs) 255" and "\<forall>f \<in> set (factor_id_array (cs ! i)). fits 24 f"
  shows "factor_id_array (decodeCharas env (encodeCharas cs) ! i) = take 15 (factor_id_array (cs ! i))"
proof -
  have "decodeCharas env (encodeCharas cs) ! i = decoded_chara (env i) (cs ! i)"
    using assms(1) by (simp add: nth_round_trip)
  moreover have "\<forall>f \<in> set (take 15 (factor_id_array (cs ! i))). fits 24 f"
    using assms(2) by (meson in_set_takeD)
  ultimately show ?thesis
    by (simp add: decoded_chara_def map_take_bit_fits)
qed

theorem factors_truncated_witness:
  "factor_id_array (decodeCharas sample_env
     (encodeCharas [sample_chara\<lparr>factor_id_array := map int [1..<21]\<rparr>]) ! 0) = map int [1..<16]"
  using factors_truncated [of 0 "[sample_chara\<lparr>factor_id_array := map int [1..<21]\<rparr>]" sample_env]
  by (simp add: fits_def take_map)

text \<open>
  C7. A skill level is transmitted as one bit: \<open>encodeChara\<close> writes, after the 16 bits of
  the skill id, the bit 1 if the level is greater than 1 and the bit 0 otherwise, and
  \<open>decodeChara\<close> makes the level 2 from the bit 1 and the level 1 from the bit 0. So in
  every record among the first 255 of a collection, each of the first 63 skills comes back
  with level 2 if its level was greater than 1 (5, say) and with level 1 otherwise.
\<close>

theorem skill_levels_collapse:
  assumes "i < min (length cs) 255"
  shows "bits (write_skills bv [s]) =
      bits bv @ wbits (skill_id s) 16 @ [if level s > 1 then 1 else 0] \<and>
    fst (read_skills 0 1 (mk pre (wbits v 16 @ [of_bool flag] @ suf)) []) =
      [\<lparr>skill_id = take_bit 16 v, level = (if flag then 2 else 1)\<rparr>] \<and>
    length (skill_array (decodeCharas env (encodeCharas cs) ! i)) =
      min (length (skill_array (cs ! i))) 63 \<and>
    (\<forall>j < min (length (skill_array (cs ! i))) 63.
      level (skill_array (decodeCharas env (encodeCharas cs) ! i) ! j) =
        (if level (skill_array (cs ! i) ! j) > 1 then 2 else 1))"
proof (intro conjI allI impI)
  show "bits (write_skills bv [s]) = bits bv @ wbits (skill_id s) 16 @ [if level s > 1 then 1 else 0]"
    by (simp add: write_skills_eq skill_bits_def wbits_def)
next
  let ?s = "\<lparr>skill_id = v, level = (if flag then 2 else 1)\<rparr>"
  have "skill_bits ?s = wbits v 16 @ [of_bool flag]"
    by (cases flag) (simp_all add: skill_bits_def wbits_def)
  then have "read_skills 0 1 (mk pre (wbits v 16 @ [of_bool flag] @ suf)) [] =
      ([] @ map decoded_skill [?s], mk (pre @ concat (map skill_bits [?s])) suf)"
    using read_skills_mk [of 1 0 "[?s]" pre suf "[]"] by simp
  then show "fst (read_skills 0 1 (mk pre (wbits v 16 @ [of_bool flag] @ suf)) []) =
      [\<lparr>skill_id = take_bit 16 v, level = (if flag then 2 else 1)\<rparr>]"
    by (simp add: decoded_skill_def)
next
  have d: "decodeCharas env (encodeCharas cs) ! i = decoded_chara (env i) (cs ! i)"
    using assms by (simp add: nth_round_trip)
  show "length (skill_array (decodeCharas env (encodeCharas cs) ! i)) =
      min (length (skill_array (cs ! i))) 63"
    unfolding d by (simp add: decoded_chara_def)
  fix j assume "j < min (length (skill_array (cs ! i))) 63"
  then show "level (skill_array (decodeCharas env (encodeCharas cs) ! i) ! j) =
      (if level (skill_array (cs ! i) ! j) > 1 then 2 else 1)"
    unfolding d by (simp add: decoded_chara_def decoded_skill_def)
qed

theorem skill_levels_collapse_witness:
  "level (skill_array (decodeCharas sample_env (encodeCharas [sample_chara]) ! 0) ! 0) = 1 \<and>
   level (skill_array (decodeCharas sample_env (encodeCharas [sample_chara]) ! 0) ! 1) = 2"
  using skill_levels_collapse [where i = 0 and cs = "[sample_chara]" and env = sample_env]
  by (simp add: sample_chara_def)

text \<open>
  C8. For every string \<open>s\<close> that consists of characters of the 64-symbol alphabet only and
  whose length is a multiple of 4, turning \<open>s\<close> into bits with \<open>fromBase64\<close> and the bits
  back into text with \<open>toBase64\<close> gives \<open>s\<close> again.
\<close>

theorem toBase64_fromBase64:
  assumes "set s \<subseteq> set BASE64_CHARS" and "length s mod 4 = 0"
  shows "toBase64 (fromBase64 s) = s"
proof -
  let ?gs = "map (\<lambda>c. wbits (indexOf BASE64_CHARS c) 6) s"
  have gs: "\<forall>g \<in> set ?gs. length g = 6 \<and> is_bits g"
    by simp
  then have "length (concat ?gs) = 6 * length ?gs"
    by (intro length_concat_sextets) simp
  then have p: "padToBase64_loop (concat ?gs) = concat ?gs"
    by (simp add: padToBase64_loop_eq)
  have "toBase64 (fromBase64 s) = toBase64_loop ([] @ concat ?gs) (length ([] :: int list)) []"
    using p by (simp add: toBase64_def padToBase64_def fromBase64_alphabet [OF assms(1)])
  also have "\<dots> = [] @ map sextet_char ?gs"
    using gs by (rule toBase64_loop_groups)
  also have "\<dots> = map (\<lambda>c. c) s"
    unfolding map_map append_Nil
  proof (rule map_cong [OF refl])
    fix c assume "c \<in> set s"
    then have "c \<in> set BASE64_CHARS" using assms(1) by blast
    then show "(sextet_char \<circ> (\<lambda>c. wbits (indexOf BASE64_CHARS c) 6)) c = c"
      by (simp add: sextet_char_wbits)
  qed
  finally show ?thesis by simp
qed

theorem toBase64_fromBase64_witness:
  "toBase64 (fromBase64 ''Ab3_-zQ0'') = ''Ab3_-zQ0''"
  using toBase64_fromBase64 [of "''Ab3_-zQ0''"] by (simp add: BASE64_CHARS_def)

text \<open>
  C9. When \<open>decodeChara\<close> returns none, fewer than 108 bits remain and the vector is returned
  as it was, cursor and bits: nothing is consumed. A further call on it returns none again,
  and the loop of \<open>decodeCharas\<close>, continued from there over any range of indices, appends
  nothing.
\<close>

theorem none_consumes_nothing:
  assumes "fst (decodeChara env bv) = None"
  shows "remaining bv < 108 \<and>
    snd (decodeChara env bv) = bv \<and>
    fst (decodeChara env' (snd (decodeChara env bv))) = None \<and>
    decode_loop env'' i count (snd (decodeChara env bv)) charas = (charas, bv)"
proof -
  have r: "remaining bv < 108"
    using assms by (simp add: decodeChara_None_iff)
  then have s: "snd (decodeChara env bv) = bv"
    by (simp add: decodeChara_None)
  have "decode_loop env'' i count bv charas = (charas, bv)"
    using refl r by (rule decode_loop_exhausted)
  then show ?thesis
    using r s by (simp add: decodeChara_None_iff)
qed

theorem none_consumes_nothing_witness:
  "snd (decodeChara (sample_env 0) \<lparr>bits = replicate 107 1, readPos = 0\<rparr>) =
     \<lparr>bits = replicate 107 1, readPos = 0\<rparr> \<and>
   decode_loop sample_env 1 200 \<lparr>bits = replicate 107 1, readPos = 0\<rparr> [] =
     ([], \<lparr>bits = replicate 107 1, readPos = 0\<rparr>)"
proof -
  have "fst (decodeChara (sample_env 0) \<lparr>bits = replicate 107 1, readPos = 0\<rparr>) = None"
    by (simp add: decodeChara_None_iff remaining_def)
  from none_consumes_nothing [OF this, where env' = "sample_env 1" and env'' = sample_env
      and i = 1 and count = 200 and charas = "[]"] show ?thesis
    by (elim conjE) simp
qed

text \<open>
  C10. Whatever the input string, \<open>decodeCharas\<close> returns at most 255 records, and each of
  them is complete and within bounds (\<open>decoded_ok\<close>): \<open>talent_level\<close> and the aptitudes are
  1 to 8, the stats 0 to 2047, every skill level is 1 or 2, there are at most 15 factors, 63
  skills and 3 parents, each parent's \<open>position_id\<close> is its position counted from 1,
  \<open>rarity\<close> is 3 and \<open>support_card_list\<close> is empty.
\<close>

theorem decoded_records_in_range:
  "length (decodeCharas env encoded) \<le> 255 \<and>
   (\<forall>d \<in> set (decodeCharas env encoded). decoded_ok d)"
proof -
  let ?bv1 = "snd (read (fromBase64 encoded) 8)"
  let ?n = "fst (read ?bv1 8)"
  let ?bv2 = "snd (read ?bv1 8)"
  have "is_bits (bits ?bv1)" by simp
  then have n: "?n < 256"
    using read_bounds [of ?bv1 8] by simp
  have "is_bits (bits ?bv2)" "\<forall>d \<in> set []. decoded_ok d"
    by simp_all
  with refl have "(\<forall>d \<in> set (fst (decode_loop env 0 ?n ?bv2 [])). decoded_ok d) \<and>
      length (fst (decode_loop env 0 ?n ?bv2 [])) \<le> length ([] :: CharaData list) + nat (?n - int 0)"
    by (rule decode_loop_props)
  moreover have "nat ?n \<le> 255"
    using n by linarith
  ultimately show ?thesis
    by (simp add: decodeCharas_unfold)
qed

theorem decoded_records_in_range_witness:
  "decoded_ok (decodeCharas sample_env (encodeCharas [sample_chara]) ! 0)"
proof -
  have "length (decodeCharas sample_env (encodeCharas [sample_chara])) = 1"
    by (simp add: length_round_trip)
  then have "decodeCharas sample_env (encodeCharas [sample_chara]) ! 0
      \<in> set (decodeCharas sample_env (encodeCharas [sample_chara]))"
    by (intro nth_mem) simp
  with decoded_records_in_range [of sample_env "encodeCharas [sample_chara]"] show ?thesis
    by blast
qed

end
